theory Spec2Isabelle
  imports Main "HOL-Library.Sublist"
begin

section \<open>Text segmentation of translate\_chinese\_classic\_enhanced.py\<close>

text \<open>
  A Python \<open>str\<close> is a sequence of Unicode code points, and \<open>len\<close> counts code points.
  A character is modelled by its code point (a natural number) and a string by the list
  of its code points.
\<close>

type_synonym uchar = nat
type_synonym ustring = "nat list"

subsection \<open>The string operations of the Python runtime used by the source\<close>

text \<open>
  \<open>str.strip()\<close>, \<open>str.split()\<close> and the regular expression class \<open>\s\<close> of a \<open>str\<close>
  pattern share one notion of whitespace (\<open>str.isspace\<close> on one character): the ASCII
  controls 9..13 and 28..31, the space, and the Unicode separators listed below.
\<close>

definition isspace :: "uchar \<Rightarrow> bool" where
  "isspace c \<longleftrightarrow>
     (9 \<le> c \<and> c \<le> 13) \<or> (28 \<le> c \<and> c \<le> 32) \<or> c = 133 \<or> c = 160 \<or> c = 5760 \<or>
     (8192 \<le> c \<and> c \<le> 8202) \<or> c = 8232 \<or> c = 8233 \<or> c = 8239 \<or> c = 8287 \<or> c = 12288"

text \<open>\<open>s.strip()\<close>: drop the leading and the trailing whitespace.\<close>

definition strip :: "ustring \<Rightarrow> ustring" where
  "strip s = rev (dropWhile isspace (rev (dropWhile isspace s)))"

text \<open>\<open>s.split()\<close>: the maximal runs of non-whitespace characters, in order.\<close>

function split_ws :: "ustring \<Rightarrow> ustring list" where
  "split_ws s =
     (let s' = dropWhile isspace s in
      if s' = [] then []
      else takeWhile (\<lambda>c. \<not> isspace c) s' # split_ws (dropWhile (\<lambda>c. \<not> isspace c) s'))"
  by pat_completeness auto
termination
proof (relation "measure length")
  show "wf (measure length)" by simp
next
  fix s s' :: ustring
  assume s': "s' = dropWhile isspace s" and ne: "s' \<noteq> []"
  from ne have "\<not> isspace (hd s')"
    unfolding s' by (metis hd_dropWhile)
  with ne have "length (dropWhile (\<lambda>c. \<not> isspace c) s') < length s'"
    by (cases s') (simp_all add: le_imp_less_Suc length_dropWhile_le)
  also have "length s' \<le> length s"
    unfolding s' by (rule length_dropWhile_le)
  finally show "(dropWhile (\<lambda>c. \<not> isspace c) s', s) \<in> measure length"
    by simp
qed

declare split_ws.simps [simp del]

text \<open>\<open>" ".join(ws)\<close>.\<close>

fun join_sp :: "ustring list \<Rightarrow> ustring" where
  "join_sp [] = []"
| "join_sp [w] = w"
| "join_sp (w # v # ws) = w @ [32] @ join_sp (v # ws)"

text \<open>
  \<open>s.split("\n\n")\<close>: cut at every occurrence of two line feeds, scanning from the left
  without overlap; \<open>cur\<close> holds the characters of the piece being read.
\<close>

fun split_nn :: "ustring \<Rightarrow> ustring \<Rightarrow> ustring list" where
  "split_nn cur [] = [cur]"
| "split_nn cur [a] = [cur @ [a]]"
| "split_nn cur (a # b # cs) =
     (if a = 10 \<and> b = 10 then cur # split_nn [] cs else split_nn (cur @ [a]) (b # cs))"

subsection \<open>Adjustable parameters\<close>

definition MAX_TOKENS :: nat where "MAX_TOKENS = 6000"
definition SUB_CHUNK_SIZE :: nat where "SUB_CHUNK_SIZE = 3000"
definition OVERLAP_TOKENS :: nat where "OVERLAP_TOKENS = 100"

subsection \<open>count\_tokens\<close>

text \<open>
  \<open>TOKEN_ENCODER\<close> is the tiktoken encoder when the import succeeds and \<open>None\<close> otherwise.
  The encoder is code of another package: it is a parameter \<open>enc\<close> of the model, a
  function from a text to its token list, and \<open>None\<close> selects the character count.
\<close>

type_synonym encoder = "(ustring \<Rightarrow> nat list) option"

definition count_tokens :: "encoder \<Rightarrow> ustring \<Rightarrow> nat" where
  "count_tokens enc text =
     (case enc of Some encode \<Rightarrow> length (encode text) | None \<Rightarrow> length text)"

subsection \<open>break\_large\_paragraph\<close>

text \<open>The characters of the class \<open>[\<dots>.!?]\<close> of \<open>sentence_pattern\<close>: U+3002, \<open>.\<close>, \<open>!\<close>, \<open>?\<close>.\<close>

definition is_sentence_end :: "uchar \<Rightarrow> bool" where
  "is_sentence_end c \<longleftrightarrow> c = 12290 \<or> c = 46 \<or> c = 33 \<or> c = 63"

text \<open>
  \<open>re.split(sentence_pattern, paragraph)\<close>: the pattern matches at each position that
  follows a sentence-ending character and takes the whitespace after it (possibly none);
  since Python 3.7 an empty match splits too. So each piece ends with its sentence-ending
  character, the whitespace after it is removed, and a last piece (possibly empty) follows
  the last match.
\<close>

function re_split_sentences :: "ustring \<Rightarrow> ustring \<Rightarrow> ustring list" where
  "re_split_sentences cur [] = [cur]"
| "re_split_sentences cur (c # cs) =
     (if is_sentence_end c then (cur @ [c]) # re_split_sentences [] (dropWhile isspace cs)
      else re_split_sentences (cur @ [c]) cs)"
  by pat_completeness auto
termination
  by (relation "measure (\<lambda>(cur, s). length s)")
     (auto simp: le_imp_less_Suc length_dropWhile_le)

text \<open>\<open>sentences = [s.strip() for s in sentences if s.strip()]\<close>\<close>

definition sentences_of :: "ustring \<Rightarrow> ustring list" where
  "sentences_of paragraph =
     map strip (filter (\<lambda>s. strip s \<noteq> []) (re_split_sentences [] paragraph))"

text \<open>
  The inner loop over \<open>reversed(last_chunk_tokens)\<close>, with its \<open>break\<close>; the state is
  \<open>overlap_chunk\<close> and \<open>tokens_so_far\<close>.
\<close>

fun overlap_loop :: "ustring list \<Rightarrow> ustring \<Rightarrow> nat \<Rightarrow> ustring" where
  "overlap_loop [] overlap_chunk tokens_so_far = overlap_chunk"
| "overlap_loop (w # ws) overlap_chunk tokens_so_far =
     (if tokens_so_far + length w \<le> OVERLAP_TOKENS
      then overlap_loop ws (w @ [32] @ overlap_chunk) (tokens_so_far + length w)
      else overlap_chunk)"

text \<open>The loop over the sentences; the state is \<open>chunks\<close> and \<open>current_chunk\<close>.\<close>

fun blp_loop :: "encoder \<Rightarrow> ustring list \<Rightarrow> ustring list \<Rightarrow> ustring \<Rightarrow> ustring list \<times> ustring" where
  "blp_loop enc [] chunks current_chunk = (chunks, current_chunk)"
| "blp_loop enc (sentence # rest) chunks current_chunk =
     (let candidate = strip (current_chunk @ (if current_chunk \<noteq> [] then [32] else []) @ sentence) in
      if count_tokens enc candidate > SUB_CHUNK_SIZE then
        let chunks' = (if current_chunk \<noteq> [] then chunks @ [current_chunk] else chunks);
            candidate' =
              (if OVERLAP_TOKENS > 0 \<and> chunks' \<noteq> []
               then strip (overlap_loop (rev (split_ws (last chunks'))) [] 0 @ sentence)
               else candidate)
        in blp_loop enc rest chunks' candidate'
      else blp_loop enc rest chunks candidate)"

definition break_large_paragraph :: "encoder \<Rightarrow> ustring \<Rightarrow> ustring list" where
  "break_large_paragraph enc paragraph =
     (case blp_loop enc (sentences_of paragraph) [] [] of
        (chunks, current_chunk) \<Rightarrow>
          if current_chunk \<noteq> [] then chunks @ [current_chunk] else chunks)"

subsection \<open>force\_substring\_chunks\<close>

text \<open>
  The loop over the words; the state is \<open>results\<close>, \<open>current_tokens\<close> and \<open>current_text\<close>.
  \<open>max_size\<close> is a Python \<open>int\<close>.
\<close>

fun fsc_loop :: "int \<Rightarrow> ustring list \<Rightarrow> ustring list \<Rightarrow> nat \<Rightarrow> ustring list \<Rightarrow> ustring list \<times> ustring list" where
  "fsc_loop max_size [] results current_tokens current_text = (results, current_text)"
| "fsc_loop max_size (w # ws) results current_tokens current_text =
     (if int (current_tokens + length w) > max_size
      then fsc_loop max_size ws (results @ [join_sp current_text]) (length w) [w]
      else fsc_loop max_size ws results (current_tokens + length w) (current_text @ [w]))"

definition force_substring_chunks :: "ustring \<Rightarrow> int \<Rightarrow> ustring list" where
  "force_substring_chunks text max_size =
     (case fsc_loop max_size (split_ws text) [] 0 [] of
        (results, current_text) \<Rightarrow>
          if current_text \<noteq> [] then results @ [join_sp current_text] else results)"

subsection \<open>segment\_chapter\<close>

text \<open>\<open>paragraphs = [p.strip() for p in chapter_text.split("\n\n") if p.strip()]\<close>\<close>

definition paragraphs_of :: "ustring \<Rightarrow> ustring list" where
  "paragraphs_of chapter_text =
     map strip (filter (\<lambda>p. strip p \<noteq> []) (split_nn [] chapter_text))"

text \<open>The loop \<open>for sc in subchunks\<close>, appending to \<open>segments\<close>.\<close>

fun emit_subchunks :: "encoder \<Rightarrow> ustring list \<Rightarrow> ustring list \<Rightarrow> ustring list" where
  "emit_subchunks enc [] segments = segments"
| "emit_subchunks enc (sc # scs) segments =
     (if count_tokens enc sc \<le> MAX_TOKENS
      then emit_subchunks enc scs (segments @ [sc])
      else emit_subchunks enc scs (segments @ force_substring_chunks sc (int MAX_TOKENS)))"

text \<open>The loop over the paragraphs; the state is \<open>segments\<close> and \<open>current_segment\<close>.\<close>

fun seg_loop :: "encoder \<Rightarrow> ustring list \<Rightarrow> ustring list \<Rightarrow> ustring \<Rightarrow> ustring list \<times> ustring" where
  "seg_loop enc [] segments current_segment = (segments, current_segment)"
| "seg_loop enc (para # ps) segments current_segment =
     (if count_tokens enc para > MAX_TOKENS then
        let segments' =
              (if current_segment \<noteq> [] then segments @ [strip current_segment] else segments)
        in seg_loop enc ps (emit_subchunks enc (break_large_paragraph enc para) segments') []
      else
        let candidate = strip (current_segment @ para) in
        if count_tokens enc candidate > MAX_TOKENS then
          seg_loop enc ps
            (if current_segment \<noteq> [] then segments @ [strip current_segment] else segments)
            (para @ [10, 10])
        else seg_loop enc ps segments (current_segment @ [10, 10] @ para))"

definition segment_chapter :: "encoder \<Rightarrow> ustring \<Rightarrow> ustring list" where
  "segment_chapter enc chapter_text =
     (if count_tokens enc chapter_text \<le> MAX_TOKENS then [chapter_text]
      else
        case seg_loop enc (paragraphs_of chapter_text) [] [] of
          (segments, current_segment) \<Rightarrow>
            if current_segment \<noteq> [] then segments @ [strip current_segment] else segments)"

subsection \<open>split\_text\_into\_chapters\<close>

text \<open>
  The heading pattern is U+7B2C, then one or more characters of the class
  \<open>[U+4E00-U+9FA5, \d]\<close>, then U+56DE. The class \<open>\d\<close> of a \<open>str\<close> pattern is the table of
  Unicode decimal digits of the Python runtime: it is the parameter \<open>isdecimal\<close>.
\<close>

definition DI :: uchar where "DI = 31532"
definition HUI :: uchar where "HUI = 22238"

definition heading_class :: "(uchar \<Rightarrow> bool) \<Rightarrow> uchar \<Rightarrow> bool" where
  "heading_class isdecimal c \<longleftrightarrow> (19968 \<le> c \<and> c \<le> 40869) \<or> isdecimal c"

text \<open>
  The greedy \<open>+\<close> first takes the whole run of class characters and gives them back one
  at a time, down to one, until the next character is U+56DE. \<open>heading_backtrack rest k\<close>
  tries \<open>k\<close> class characters, then fewer; \<open>rest\<close> is the text after U+7B2C.
\<close>

fun heading_backtrack :: "ustring \<Rightarrow> nat \<Rightarrow> nat option" where
  "heading_backtrack rest 0 = None"
| "heading_backtrack rest (Suc k) =
     (if Suc k < length rest \<and> rest ! Suc k = HUI then Some (Suc k)
      else heading_backtrack rest k)"

text \<open>The length of the match of the pattern at the start of \<open>s\<close>, if there is one.\<close>

definition match_heading :: "(uchar \<Rightarrow> bool) \<Rightarrow> ustring \<Rightarrow> nat option" where
  "match_heading isdecimal s =
     (case s of
        [] \<Rightarrow> None
      | c # rest \<Rightarrow>
          if c = DI
          then map_option (\<lambda>k. k + 2)
                 (heading_backtrack rest (length (takeWhile (heading_class isdecimal) rest)))
          else None)"

text \<open>
  \<open>pattern.split(text)\<close> with the pattern in one capturing group: the scan goes from the
  left, tries the pattern at each position, and at a match emits the text before it and
  the match, and goes on after the match. \<open>cur\<close> is the text read since the last match.
\<close>

function heading_split :: "(uchar \<Rightarrow> bool) \<Rightarrow> ustring \<Rightarrow> ustring \<Rightarrow> ustring list" where
  "heading_split isdecimal cur [] = [cur]"
| "heading_split isdecimal cur (c # cs) =
     (case match_heading isdecimal (c # cs) of
        Some n \<Rightarrow> cur # take n (c # cs) # heading_split isdecimal [] (drop n (c # cs))
      | None \<Rightarrow> heading_split isdecimal (cur @ [c]) cs)"
  by pat_completeness auto
termination
  by (relation "measure (\<lambda>(isdecimal, cur, s). length s)")
     (auto simp: match_heading_def split: if_splits)

text \<open>
  The loop \<open>for i in range(1, len(parts), 2)\<close>, on the parts from index \<open>i\<close> on:
  \<open>parts[i]\<close> is the title and \<open>parts[i+1]\<close>, when it exists, the content.
\<close>

fun chapters_loop :: "ustring list \<Rightarrow> ustring list" where
  "chapters_loop [] = []"
| "chapters_loop [title] =
     (let chapter_text = strip (title @ []) in
      if chapter_text \<noteq> [] then [chapter_text] else [])"
| "chapters_loop (title # content # parts) =
     (let chapter_text = strip (title @ content) in
      (if chapter_text \<noteq> [] then [chapter_text] else []) @ chapters_loop parts)"

definition split_text_into_chapters :: "(uchar \<Rightarrow> bool) \<Rightarrow> ustring \<Rightarrow> ustring list" where
  "split_text_into_chapters isdecimal text = chapters_loop (drop 1 (heading_split isdecimal [] text))"

subsection \<open>Notions used to state the properties\<close>

text \<open>The text without its whitespace characters.\<close>

definition nows :: "ustring \<Rightarrow> ustring" where
  "nows s = filter (\<lambda>c. \<not> isspace c) s"

text \<open>
  \<open>in_order ss ys\<close>: the strings \<open>ss\<close> occur in \<open>ys\<close> as contiguous blocks that do not
  overlap, in the order of \<open>ss\<close>; anything may stand before, between and after them.
\<close>

inductive in_order :: "'a list list \<Rightarrow> 'a list \<Rightarrow> bool" where
  in_order_Nil: "in_order [] ys"
| in_order_Cons: "in_order ss ys \<Longrightarrow> in_order (s # ss) (pre @ s @ ys)"

code_pred in_order .

text \<open>The sentences of a text: the sentences of its paragraphs, as the source splits them.\<close>

definition all_sentences :: "ustring \<Rightarrow> ustring list" where
  "all_sentences T = concat (map sentences_of (paragraphs_of T))"

text \<open>A string that the heading pattern matches as a whole.\<close>

definition is_heading :: "(uchar \<Rightarrow> bool) \<Rightarrow> ustring \<Rightarrow> bool" where
  "is_heading isdecimal m \<longleftrightarrow>
     (case m of
        [] \<Rightarrow> False
      | c # rest \<Rightarrow>
          c = DI \<and> 2 \<le> length rest \<and> last rest = HUI \<and>
          list_all (heading_class isdecimal) (butlast rest))"

text \<open>
  All the substrings of a document that the heading pattern matches, each as the pair of
  its start index and its length.
\<close>

definition heading_spans :: "(uchar \<Rightarrow> bool) \<Rightarrow> ustring \<Rightarrow> (nat \<times> nat) list" where
  "heading_spans isdecimal doc =
     concat (map (\<lambda>i. map (\<lambda>n. (i, n))
                         (filter (\<lambda>n. is_heading isdecimal (take n (drop i doc)))
                                 [1..<Suc (length doc - i)]))
                 [0..<length doc])"

text \<open>The number of segments that are not the empty string.\<close>

definition count_nonempty :: "ustring list \<Rightarrow> nat" where
  "count_nonempty xs = length (filter (\<lambda>s. s \<noteq> []) xs)"

text \<open>\<open>"\n\n".join(ps)\<close>: the paragraphs joined by blank lines.\<close>

fun join_nn :: "ustring list \<Rightarrow> ustring" where
  "join_nn [] = []"
| "join_nn [p] = p"
| "join_nn (p # q # ps) = p @ [10, 10] @ join_nn (q # ps)"

text \<open>A non-empty string that neither begins nor ends with whitespace, as \<open>strip\<close> leaves it.\<close>

definition trimmed :: "ustring \<Rightarrow> bool" where
  "trimmed s \<longleftrightarrow> s \<noteq> [] \<and> \<not> isspace (hd s) \<and> \<not> isspace (last s)"

section \<open>Whitespace, words and joining\<close>

lemma isspace_lf [simp]: "isspace 10"
  by (simp add: isspace_def)

lemma isspace_sp [simp]: "isspace 32"
  by (simp add: isspace_def)

lemma nows_simps [simp]:
  "nows [] = []"
  "nows (c # s) = (if isspace c then nows s else c # nows s)"
  "nows (s @ t) = nows s @ nows t"
  by (simp_all add: nows_def)

lemma nows_rev: "nows (rev s) = rev (nows s)"
  by (simp add: nows_def rev_filter)

lemma nows_dropWhile: "nows (dropWhile isspace s) = nows s"
  by (induction s) simp_all

lemma nows_strip [simp]: "nows (strip s) = nows s"
  by (simp add: strip_def nows_rev nows_dropWhile)

lemma length_nows_le: "length (nows s) \<le> length s"
  by (simp add: nows_def)

lemma nows_id: "\<forall>c\<in>set s. \<not> isspace c \<Longrightarrow> nows s = s"
  by (simp add: nows_def)

lemma nows_concat: "nows (concat xs) = concat (map nows xs)"
  by (induction xs) simp_all

lemma strip_Nil [simp]: "strip [] = []"
  by (simp add: strip_def)

lemma strip_eq_Nil_iff: "strip s = [] \<longleftrightarrow> nows s = []"
proof
  assume "strip s = []"
  then have "nows (strip s) = []" by simp
  then show "nows s = []" by simp
next
  assume "nows s = []"
  then have "\<forall>c\<in>set s. isspace c"
    by (auto simp: nows_def filter_empty_conv)
  then have "dropWhile isspace s = []" by (induction s) simp_all
  then show "strip s = []" by (simp only: strip_def rev.simps dropWhile.simps)
qed

lemma strip_id:
  assumes "s \<noteq> []" "\<not> isspace (hd s)" "\<not> isspace (last s)"
  shows "strip s = s"
proof -
  from assms have a: "dropWhile isspace s = s" by (cases s) simp_all
  from assms have "rev s \<noteq> []" "\<not> isspace (hd (rev s))" by (simp_all add: hd_rev)
  then have "dropWhile isspace (rev s) = rev s" by (cases "rev s") simp_all
  with a show ?thesis by (simp add: strip_def)
qed

lemma strip_no_space: "\<forall>c\<in>set s. \<not> isspace c \<Longrightarrow> strip s = s"
  by (cases "s = []") (simp_all add: strip_id)

lemma length_strip_le: "length (strip s) \<le> length s"
proof -
  have "length (strip s) \<le> length (dropWhile isspace s)"
    unfolding strip_def using length_dropWhile_le [of isspace "rev (dropWhile isspace s)"] by simp
  also have "\<dots> \<le> length s" by (rule length_dropWhile_le)
  finally show ?thesis .
qed

lemma concat_split_ws: "concat (split_ws s) = nows s"
proof (induction s rule: split_ws.induct)
  case (1 s)
  define s' where "s' = dropWhile isspace s"
  show ?case
  proof (cases "s' = []")
    case True
    then have "nows s' = []" by simp
    then have "nows s = []" by (simp add: s'_def nows_dropWhile)
    with True show ?thesis by (subst split_ws.simps) (simp add: s'_def)
  next
    case False
    have "nows s = nows s'" by (simp add: s'_def nows_dropWhile)
    also have "s' = takeWhile (\<lambda>c. \<not> isspace c) s' @ dropWhile (\<lambda>c. \<not> isspace c) s'" by simp
    also have "nows \<dots> = takeWhile (\<lambda>c. \<not> isspace c) s' @ nows (dropWhile (\<lambda>c. \<not> isspace c) s')"
      by (simp add: nows_def filter_id_conv del: takeWhile_dropWhile_id) (auto dest: set_takeWhileD)
    finally have e: "nows s = takeWhile (\<lambda>c. \<not> isspace c) s' @ nows (dropWhile (\<lambda>c. \<not> isspace c) s')" .
    from False "1.IH" [OF s'_def False]
    show ?thesis by (subst split_ws.simps) (simp add: s'_def [symmetric] e)
  qed
qed

lemma split_ws_words: "w \<in> set (split_ws s) \<Longrightarrow> w \<noteq> [] \<and> (\<forall>c\<in>set w. \<not> isspace c)"
proof (induction s rule: split_ws.induct)
  case (1 s)
  define s' where "s' = dropWhile isspace s"
  show ?case
  proof (cases "s' = []")
    case True
    with "1.prems" show ?thesis by (subst (asm) split_ws.simps) (simp add: s'_def)
  next
    case False
    then have hd: "\<not> isspace (hd s')" unfolding s'_def by (metis hd_dropWhile)
    from "1.prems" False
    have "w = takeWhile (\<lambda>c. \<not> isspace c) s' \<or> w \<in> set (split_ws (dropWhile (\<lambda>c. \<not> isspace c) s'))"
      by (subst (asm) split_ws.simps) (simp add: s'_def [symmetric])
    then show ?thesis
    proof
      assume w: "w = takeWhile (\<lambda>c. \<not> isspace c) s'"
      from False hd have "w \<noteq> []" unfolding w by (cases s') simp_all
      moreover have "\<forall>c\<in>set w. \<not> isspace c" unfolding w by (auto dest: set_takeWhileD)
      ultimately show ?thesis by simp
    next
      assume "w \<in> set (split_ws (dropWhile (\<lambda>c. \<not> isspace c) s'))"
      with "1.IH" [OF s'_def False] show ?thesis by simp
    qed
  qed
qed

lemma split_ws_no_space:
  assumes "s \<noteq> []" "\<forall>c\<in>set s. \<not> isspace c"
  shows "split_ws s = [s]"
proof -
  from assms have a: "dropWhile isspace s = s" by (cases s) simp_all
  from assms have b: "takeWhile (\<lambda>c. \<not> isspace c) s = s" "dropWhile (\<lambda>c. \<not> isspace c) s = []" by simp_all
  have c: "split_ws [] = []" by (subst split_ws.simps) simp
  show ?thesis by (subst split_ws.simps) (simp add: a b c assms)
qed

lemma nows_join_sp: "nows (join_sp ws) = concat (map nows ws)"
  by (induction ws rule: join_sp.induct) simp_all

lemma join_sp_snoc: "nows (join_sp (ws @ [w])) = nows (join_sp ws) @ nows w"
  by (simp add: nows_join_sp)

lemma split_ws_Nil [simp]: "split_ws [] = []"
  by (subst split_ws.simps) simp

lemma split_ws_space [simp]: "isspace c \<Longrightarrow> split_ws (c # s) = split_ws s"
  by (subst split_ws.simps, subst (2) split_ws.simps) simp

lemma split_ws_word [simp]:
  "\<not> isspace c \<Longrightarrow> split_ws (c # s) =
     (c # takeWhile (\<lambda>c. \<not> isspace c) s) # split_ws (dropWhile (\<lambda>c. \<not> isspace c) s)"
  by (subst split_ws.simps) simp

section \<open>Every sentence is kept, in order\<close>

lemma in_order_prepend: "in_order ss ys \<Longrightarrow> in_order ss (pre @ ys)"
proof (induction rule: in_order.induct)
  case (in_order_Nil ys)
  show ?case by (rule in_order.in_order_Nil)
next
  case (in_order_Cons ss ys s pre')
  from in_order.in_order_Cons [OF in_order_Cons.hyps, of s "pre @ pre'"]
  show ?case by simp
qed

lemma in_order_append:
  "in_order ss1 ys1 \<Longrightarrow> in_order ss2 ys2 \<Longrightarrow> in_order (ss1 @ ss2) (ys1 @ ys2)"
proof (induction rule: in_order.induct)
  case (in_order_Nil ys)
  then show ?case by (simp add: in_order_prepend)
next
  case (in_order_Cons ss ys s pre)
  from in_order.in_order_Cons [OF in_order_Cons.IH [OF in_order_Cons.prems], of s pre]
  show ?case by simp
qed

lemma in_order_concat: "in_order ss (concat ss)"
proof (induction ss)
  case Nil
  show ?case by (simp add: in_order_Nil)
next
  case (Cons s ss)
  from in_order_Cons [OF Cons, of s "[]"] show ?case by simp
qed

lemma in_order_length: "in_order ss ys \<Longrightarrow> length (concat ss) \<le> length ys"
  by (induction rule: in_order.induct) simp_all

lemma in_order_single: "in_order [s] (pre @ s)"
  using in_order_Cons [OF in_order_Nil, of s pre "[]"] by simp

text \<open>paragraph and sentence splitting only drop whitespace\<close>

lemma nows_split_nn: "nows (concat (split_nn cur s)) = nows (cur @ s)"
  by (induction cur s rule: split_nn.induct) auto

lemma nows_re_split_sentences: "nows (concat (re_split_sentences cur s)) = nows (cur @ s)"
  by (induction cur s rule: re_split_sentences.induct) (simp_all add: nows_dropWhile)

lemma concat_nows_strip_filter:
  "concat (map nows (map strip (filter (\<lambda>p. strip p \<noteq> []) xs))) = nows (concat xs)"
  by (induction xs) (simp_all add: strip_eq_Nil_iff)

lemma nows_paragraphs_of: "concat (map nows (paragraphs_of T)) = nows T"
  by (simp only: paragraphs_of_def concat_nows_strip_filter nows_split_nn append_Nil)

lemma nows_sentences_of: "concat (map nows (sentences_of p)) = nows p"
  by (simp only: sentences_of_def concat_nows_strip_filter nows_re_split_sentences append_Nil)

lemma nows_all_sentences: "concat (map nows (all_sentences T)) = nows T"
proof -
  have "concat (map nows (concat (map sentences_of ps))) = concat (map nows ps)" for ps
    by (induction ps) (simp_all add: nows_sentences_of)
  then show ?thesis by (simp add: all_sentences_def nows_paragraphs_of)
qed

text \<open>force_substring_chunks keeps the non-whitespace characters\<close>

lemma nows_fsc_loop:
  "fsc_loop N ws res ct ctext = (res', ctext') \<Longrightarrow>
   nows (concat res') @ nows (join_sp ctext') =
   nows (concat res) @ nows (join_sp ctext) @ concat (map nows ws)"
  by (induction N ws res ct ctext rule: fsc_loop.induct)
     (auto simp: nows_join_sp split: if_splits)

lemma nows_force_substring_chunks: "nows (concat (force_substring_chunks s N)) = nows s"
proof -
  obtain res ctext where l: "fsc_loop N (split_ws s) [] 0 [] = (res, ctext)"
    by (cases "fsc_loop N (split_ws s) [] 0 []")
  from nows_fsc_loop [OF l]
  have "nows (concat res) @ nows (join_sp ctext) = concat (map nows (split_ws s))" by simp
  also have "\<dots> = nows (concat (split_ws s))" by (simp add: nows_concat)
  also have "\<dots> = nows s" by (simp add: concat_split_ws nows_def)
  finally show ?thesis by (auto simp: force_substring_chunks_def l)
qed

lemma nows_emit_subchunks:
  "nows (concat (emit_subchunks enc scs segs)) = nows (concat segs) @ nows (concat scs)"
  by (induction enc scs segs rule: emit_subchunks.induct)
     (simp_all add: nows_force_substring_chunks)

text \<open>break_large_paragraph\<close>

lemma blp_loop_in_order:
  "blp_loop enc ss chunks cur = (chunks', cur') \<Longrightarrow>
   \<exists>ys. nows (concat chunks') @ nows cur' = nows (concat chunks) @ nows cur @ ys \<and>
        in_order (map nows ss) ys"
proof (induction enc ss chunks cur rule: blp_loop.induct)
  case (1 enc chunks cur)
  then show ?case by (auto intro: in_order_Nil)
next
  case (2 enc sentence rest chunks cur)
  define candidate where
    "candidate = strip (cur @ (if cur \<noteq> [] then [32] else []) @ sentence)"
  have nc: "nows candidate = nows cur @ nows sentence"
    by (simp add: candidate_def)
  show ?case
  proof (cases "count_tokens enc candidate > SUB_CHUNK_SIZE")
    case False
    have "blp_loop enc (sentence # rest) chunks cur = blp_loop enc rest chunks candidate"
      using False unfolding candidate_def
      by (simp only: blp_loop.simps Let_def if_False)
    with "2.prems" have l: "blp_loop enc rest chunks candidate = (chunks', cur')"
      by simp
    from "2.IH"(2) [OF candidate_def _ l] False
    obtain ys where ys: "nows (concat chunks') @ nows cur' = nows (concat chunks) @ nows candidate @ ys"
      "in_order (map nows rest) ys" by auto
    from in_order_append [OF in_order_single [of "nows sentence" "[]"] ys(2)]
    have "in_order (map nows (sentence # rest)) (nows sentence @ ys)" by simp
    with ys(1) nc show ?thesis by auto
  next
    case True
    define chunks1 where "chunks1 = (if cur \<noteq> [] then chunks @ [cur] else chunks)"
    define candidate1 where
      "candidate1 = (if OVERLAP_TOKENS > 0 \<and> chunks1 \<noteq> []
               then strip (overlap_loop (rev (split_ws (last chunks1))) [] 0 @ sentence)
               else candidate)"
    have "blp_loop enc (sentence # rest) chunks cur = blp_loop enc rest chunks1 candidate1"
      using True unfolding candidate_def chunks1_def candidate1_def
      by (simp only: blp_loop.simps Let_def if_True)
    with "2.prems" have l: "blp_loop enc rest chunks1 candidate1 = (chunks', cur')"
      by simp
    from "2.IH"(1) [OF candidate_def True chunks1_def candidate1_def l]
    obtain ys where ys: "nows (concat chunks') @ nows cur' = nows (concat chunks1) @ nows candidate1 @ ys"
      "in_order (map nows rest) ys" by auto
    have c1: "nows (concat chunks1) = nows (concat chunks) @ nows cur"
      by (simp add: chunks1_def)
    have "\<exists>pre. nows candidate1 = pre @ nows sentence"
    proof (cases "OVERLAP_TOKENS > 0 \<and> chunks1 \<noteq> []")
      case True
      then show ?thesis by (simp add: candidate1_def)
    next
      case False
      then have "chunks1 = []" by (simp add: OVERLAP_TOKENS_def)
      then have "cur = []" by (simp add: chunks1_def split: if_splits)
      with False show ?thesis by (simp add: candidate1_def nc)
    qed
    then obtain pre where pre: "nows candidate1 = pre @ nows sentence" ..
    from in_order_append [OF in_order_single [of "nows sentence" pre] ys(2)]
    have "in_order (map nows (sentence # rest)) (pre @ nows sentence @ ys)" by simp
    with ys(1) c1 pre show ?thesis by auto
  qed
qed

lemma break_large_paragraph_in_order:
  "in_order (map nows (sentences_of p)) (nows (concat (break_large_paragraph enc p)))"
proof -
  obtain chunks cur where l: "blp_loop enc (sentences_of p) [] [] = (chunks, cur)"
    by (cases "blp_loop enc (sentences_of p) [] []")
  from blp_loop_in_order [OF l] obtain ys where
    "nows (concat chunks) @ nows cur = ys" "in_order (map nows (sentences_of p)) ys" by auto
  then show ?thesis by (auto simp: break_large_paragraph_def l)
qed

lemma seg_loop_in_order:
  "seg_loop enc ps segs cur = (segs', cur') \<Longrightarrow>
   \<exists>ys. nows (concat segs') @ nows cur' = nows (concat segs) @ nows cur @ ys \<and>
        in_order (map nows (concat (map sentences_of ps))) ys"
proof (induction enc ps segs cur rule: seg_loop.induct)
  case (1 enc segs cur)
  then show ?case by (auto intro: in_order_Nil)
next
  case (2 enc para ps segs cur)
  have flush: "nows (concat (if cur \<noteq> [] then segs @ [strip cur] else segs)) = nows (concat segs) @ nows cur"
    by simp
  have io_para: "in_order (map nows (sentences_of para)) (nows para)"
    using in_order_concat [of "map nows (sentences_of para)"] by (simp add: nows_sentences_of)
  show ?case
  proof (cases "count_tokens enc para > MAX_TOKENS")
    case True
    define segs1 where "segs1 = (if cur \<noteq> [] then segs @ [strip cur] else segs)"
    from "2.prems" True
    have l: "seg_loop enc ps (emit_subchunks enc (break_large_paragraph enc para) segs1) [] = (segs', cur')"
      by (simp add: Let_def segs1_def)
    from "2.IH"(1) [OF True segs1_def l]
    obtain ys where ys: "nows (concat segs') @ nows cur' =
        nows (concat (emit_subchunks enc (break_large_paragraph enc para) segs1)) @ ys"
      "in_order (map nows (concat (map sentences_of ps))) ys" by auto
    from in_order_append [OF break_large_paragraph_in_order [of para enc] ys(2)]
    have "in_order (map nows (concat (map sentences_of (para # ps))))
            (nows (concat (break_large_paragraph enc para)) @ ys)" by simp
    moreover from ys(1) flush
    have "nows (concat segs') @ nows cur' =
          nows (concat segs) @ nows cur @ nows (concat (break_large_paragraph enc para)) @ ys"
      by (simp add: nows_emit_subchunks segs1_def)
    ultimately show ?thesis by blast
  next
    case False
    define candidate where "candidate = strip (cur @ para)"
    show ?thesis
    proof (cases "count_tokens enc candidate > MAX_TOKENS")
      case True
      from "2.prems" False True
      have l: "seg_loop enc ps (if cur \<noteq> [] then segs @ [strip cur] else segs) (para @ [10, 10]) = (segs', cur')"
        by (simp add: Let_def candidate_def)
      from "2.IH"(2) [OF False candidate_def True l] flush
      obtain ys where ys: "nows (concat segs') @ nows cur' = nows (concat segs) @ nows cur @ nows para @ ys"
        "in_order (map nows (concat (map sentences_of ps))) ys" by auto
      from in_order_append [OF io_para ys(2)] ys(1) show ?thesis by auto
    next
      case c: False
      from "2.prems" False c
      have l: "seg_loop enc ps segs (cur @ [10, 10] @ para) = (segs', cur')"
        by (simp add: Let_def candidate_def)
      from "2.IH"(3) [OF False candidate_def c l]
      obtain ys where ys: "nows (concat segs') @ nows cur' = nows (concat segs) @ nows cur @ nows para @ ys"
        "in_order (map nows (concat (map sentences_of ps))) ys" by auto
      from in_order_append [OF io_para ys(2)] ys(1) show ?thesis by auto
    qed
  qed
qed

lemma segment_chapter_in_order:
  "in_order (map nows (all_sentences T)) (nows (concat (segment_chapter enc T)))"
proof (cases "count_tokens enc T \<le> MAX_TOKENS")
  case True
  from in_order_concat [of "map nows (all_sentences T)"] True
  show ?thesis by (simp add: segment_chapter_def nows_all_sentences)
next
  case False
  obtain segs cur where l: "seg_loop enc (paragraphs_of T) [] [] = (segs, cur)"
    by (cases "seg_loop enc (paragraphs_of T) [] []")
  from seg_loop_in_order [OF l] obtain ys where
    "nows (concat segs) @ nows cur = ys" "in_order (map nows (all_sentences T)) ys"
    by (auto simp: all_sentences_def)
  with False show ?thesis by (auto simp: segment_chapter_def l)
qed

lemma segment_chapter_keeps_length:
  "length (nows T) \<le> length (nows (concat (segment_chapter enc T)))"
  using in_order_length [OF segment_chapter_in_order [of T enc]]
  by (simp add: nows_all_sentences)

section \<open>Evaluation on particular texts\<close>

lemma strip_Cons_space: "isspace c \<Longrightarrow> strip (c # s) = strip s"
  by (simp add: strip_def)

lemma strip_snoc_space: "isspace c \<Longrightarrow> strip (s @ [c]) = strip s"
  by (cases "\<forall>x\<in>set s. isspace x") (auto simp: strip_def dropWhile_append dest: set_dropWhileD)

lemma split_nn_no_lf: "10 \<notin> set s \<Longrightarrow> split_nn cur s = [cur @ s]"
  by (induction cur s rule: split_nn.induct) auto

lemma split_nn_at_lf:
  "10 \<notin> set s \<Longrightarrow> split_nn cur (s @ 10 # 10 # t) = (cur @ s) # split_nn [] t"
proof (induction s arbitrary: cur)
  case Nil
  show ?case by simp
next
  case (Cons a s)
  then have a: "a \<noteq> 10" and s: "10 \<notin> set s" by auto
  obtain b cs where e: "s @ 10 # 10 # t = b # cs" by (cases "s @ 10 # 10 # t") auto
  have "split_nn cur ((a # s) @ 10 # 10 # t) = split_nn (cur @ [a]) (s @ 10 # 10 # t)"
    using a by (simp add: e)
  with Cons.IH [OF s, of "cur @ [a]"] show ?case by simp
qed

lemma re_split_no_end:
  "\<forall>c\<in>set s. \<not> is_sentence_end c \<Longrightarrow> re_split_sentences cur s = [cur @ s]"
  by (induction s arbitrary: cur) simp_all

lemma re_split_at_end:
  "\<forall>c\<in>set s. \<not> is_sentence_end c \<Longrightarrow> is_sentence_end e \<Longrightarrow>
   re_split_sentences cur (s @ e # t) = (cur @ s @ [e]) # re_split_sentences [] (dropWhile isspace t)"
  by (induction s arbitrary: cur) simp_all

lemma paragraphs_of_single:
  assumes "p \<noteq> []" "\<forall>c\<in>set p. \<not> isspace c"
  shows "paragraphs_of p = [p]"
proof -
  from assms(2) have "10 \<notin> set p" by auto
  then have "split_nn [] p = [p]" by (simp add: split_nn_no_lf)
  with assms show ?thesis by (simp add: paragraphs_of_def strip_no_space)
qed

lemma sentences_of_single:
  assumes "p \<noteq> []" "\<forall>c\<in>set p. \<not> isspace c" "\<forall>c\<in>set p. \<not> is_sentence_end c"
  shows "sentences_of p = [p]"
  using assms by (simp add: sentences_of_def re_split_no_end strip_no_space)

lemma strip_lf_lf: "strip (10 # 10 # s) = strip s"
  by (simp add: strip_Cons_space)

lemma split_ws_word_then_space:
  assumes "w \<noteq> []" "\<forall>c\<in>set w. \<not> isspace c" "isspace d"
  shows "split_ws (w @ d # t) = w # split_ws t"
proof -
  from assms(1,2) have a: "dropWhile isspace (w @ d # t) = w @ d # t" by (cases w) simp_all
  from assms(2,3) have b: "takeWhile (\<lambda>c. \<not> isspace c) (w @ d # t) = w"
    "dropWhile (\<lambda>c. \<not> isspace c) (w @ d # t) = d # t"
    by (simp_all add: takeWhile_append dropWhile_append)
  from assms(1) have "split_ws (w @ d # t) = w # split_ws (d # t)"
    by (subst split_ws.simps) (simp add: a b Let_def)
  with assms(3) show ?thesis by simp
qed

lemma notsp [simp]: "\<not> isspace 97" "\<not> isspace 98" "\<not> isspace 99" "\<not> isspace 46"
  by (simp_all add: isspace_def)

lemma sentence_end_simps [simp]:
  "\<not> is_sentence_end 97" "\<not> is_sentence_end 98" "\<not> is_sentence_end 99" "is_sentence_end 46"
  "\<not> is_sentence_end 32" "\<not> is_sentence_end 10"
  by (simp_all add: is_sentence_end_def)

lemma last_dropWhile: "dropWhile P xs \<noteq> [] \<Longrightarrow> last (dropWhile P xs) = last xs"
  by (induction xs) (auto split: if_splits)

lemma strip_ends:
  assumes "strip s \<noteq> []"
  shows "\<not> isspace (hd (strip s)) \<and> \<not> isspace (last (strip s))"
proof -
  define d where "d = dropWhile isspace s"
  define r where "r = dropWhile isspace (rev d)"
  have s: "strip s = rev r" by (simp add: strip_def r_def d_def)
  with assms have r: "r \<noteq> []" by simp
  then have d: "d \<noteq> []" by (auto simp: r_def)
  from r have "\<not> isspace (hd r)" unfolding r_def by (metis hd_dropWhile)
  moreover from r have "last r = last (rev d)" unfolding r_def by (rule last_dropWhile)
  moreover from d have "\<not> isspace (hd d)" unfolding d_def by (metis hd_dropWhile)
  ultimately show ?thesis using r d by (simp add: s hd_rev last_rev)
qed

lemma paragraphs_of_elem:
  assumes "p \<in> set (paragraphs_of T)"
  shows "p \<noteq> [] \<and> \<not> isspace (hd p) \<and> \<not> isspace (last p)"
proof -
  from assms obtain q where "p = strip q" "strip q \<noteq> []"
    by (auto simp: paragraphs_of_def)
  with strip_ends [of q] show ?thesis by simp
qed

lemma strip_between:
  assumes "p \<noteq> []" "\<not> isspace (hd p)" "q \<noteq> []" "\<not> isspace (last q)"
  shows "strip (p @ m @ q) = p @ m @ q"
  using assms by (intro strip_id) simp_all

section \<open>Properties\<close>

text \<open>
  C6. A chapter text whose token count is at most \<open>MAX_TOKENS\<close> is returned as the
  single segment, unchanged, whichever way tokens are counted. The witness is the text of
  \<open>test_short_paragraph\<close>.
\<close>

theorem segment_chapter_fits:
  "count_tokens enc T \<le> MAX_TOKENS \<Longrightarrow> segment_chapter enc T = [T]"
  by (simp add: segment_chapter_def)

theorem segment_chapter_fits_witness:
  "count_tokens None [30701, 23567, 30340, 27573, 33853, 19981, 26371, 36229, 36942, 38480, 21046, 12290] \<le> MAX_TOKENS \<and>
   segment_chapter None [30701, 23567, 30340, 27573, 33853, 19981, 26371, 36229, 36942, 38480, 21046, 12290] =
     [[30701, 23567, 30340, 27573, 33853, 19981, 26371, 36229, 36942, 38480, 21046, 12290]]"
proof -
  have h: "count_tokens None [30701, 23567, 30340, 27573, 33853, 19981, 26371, 36229, 36942, 38480, 21046, 12290] \<le> MAX_TOKENS"
    by (simp add: count_tokens_def MAX_TOKENS_def)
  from h segment_chapter_fits [OF h] show ?thesis by simp
qed

text \<open>
  C3. The claim says that the empty chapter text yields no segment. The source returns one
  segment, the empty text: the count of the empty text is within \<open>MAX_TOKENS\<close>, so the
  shortcut at the head of \<open>segment_chapter\<close> returns the list of the text itself.
\<close>

theorem segment_chapter_empty:
  "count_tokens enc [] \<le> MAX_TOKENS \<Longrightarrow> segment_chapter enc [] = [[]]"
  by (simp add: segment_chapter_def)

theorem segment_chapter_empty_witness:
  "count_tokens None [] \<le> MAX_TOKENS \<and> segment_chapter None [] = [[]]"
proof -
  have h: "count_tokens None [] \<le> MAX_TOKENS"
    by (simp add: count_tokens_def)
  from h segment_chapter_empty [OF h] show ?thesis by simp
qed

text \<open>The empty chapter text does not yield the empty list.\<close>

theorem segment_chapter_empty_counterexample: "segment_chapter None [] \<noteq> []"
  by (simp add: segment_chapter_def count_tokens_def)

text \<open>
  C5. The sentences of a text (of each paragraph, as \<open>break_large_paragraph\<close> splits
  them) occur in the concatenation of the segments of \<open>segment_chapter\<close>, each as one
  block, in the order of the text, once whitespace is left out of both; the overlap words
  and the empty pieces stand between the blocks. The sentences are all of the text: their
  concatenation is the text without its whitespace. This holds however tokens are counted.
\<close>

theorem segment_chapter_covers_sentences:
  "in_order (map nows (all_sentences T)) (nows (concat (segment_chapter enc T))) \<and>
   concat (map nows (all_sentences T)) = nows T"
  using segment_chapter_in_order [of T enc] nows_all_sentences [of T] by simp

section \<open>The sub-chunks of break\_large\_paragraph\<close>


lemma blp_loop_nonempty:
  "blp_loop enc ss chunks cur = (chunks', cur') \<Longrightarrow>
   \<forall>c\<in>set chunks. c \<noteq> [] \<Longrightarrow> \<forall>c\<in>set chunks'. c \<noteq> []"
proof (induction enc ss chunks cur rule: blp_loop.induct)
  case (1 enc chunks cur)
  then show ?case by simp
next
  case (2 enc sentence rest chunks cur)
  define candidate where
    "candidate = strip (cur @ (if cur \<noteq> [] then [32] else []) @ sentence)"
  show ?case
  proof (cases "count_tokens enc candidate > SUB_CHUNK_SIZE")
    case False
    have "blp_loop enc (sentence # rest) chunks cur = blp_loop enc rest chunks candidate"
      using False unfolding candidate_def
      by (simp only: blp_loop.simps Let_def if_False)
    with "2.prems" have l: "blp_loop enc rest chunks candidate = (chunks', cur')"
      by simp
    from "2.IH"(2) [OF candidate_def _ l] False "2.prems"(2) show ?thesis by simp
  next
    case True
    define chunks1 where "chunks1 = (if cur \<noteq> [] then chunks @ [cur] else chunks)"
    define candidate1 where
      "candidate1 = (if OVERLAP_TOKENS > 0 \<and> chunks1 \<noteq> []
               then strip (overlap_loop (rev (split_ws (last chunks1))) [] 0 @ sentence)
               else candidate)"
    have "blp_loop enc (sentence # rest) chunks cur = blp_loop enc rest chunks1 candidate1"
      using True unfolding candidate_def chunks1_def candidate1_def
      by (simp only: blp_loop.simps Let_def if_True)
    with "2.prems" have l: "blp_loop enc rest chunks1 candidate1 = (chunks', cur')"
      by simp
    from "2.prems"(2) have "\<forall>c\<in>set chunks1. c \<noteq> []" by (simp add: chunks1_def)
    with "2.IH"(1) [OF candidate_def True chunks1_def candidate1_def l] show ?thesis by simp
  qed
qed

text \<open>
  C8. Every sub-chunk returned by \<open>break_large_paragraph\<close> is a non-empty string: a chunk
  is appended only under \<open>if current_chunk\<close>. This holds however tokens are counted.
\<close>

theorem break_large_paragraph_nonempty:
  "\<forall>c\<in>set (break_large_paragraph enc paragraph). c \<noteq> []"
proof -
  obtain chunks cur where l: "blp_loop enc (sentences_of paragraph) [] [] = (chunks, cur)"
    by (cases "blp_loop enc (sentences_of paragraph) [] []")
  from blp_loop_nonempty [OF l] have "\<forall>c\<in>set chunks. c \<noteq> []" by simp
  then show ?thesis by (simp add: break_large_paragraph_def l)
qed


theorem break_large_paragraph_nonempty_witness:
  "[97, 46, 32, 98, 46] \<in> set (break_large_paragraph None [97, 46, 32, 98, 46]) \<and>
   [97, 46, 32, 98, 46] \<noteq> ([] :: ustring)"
proof -
  have "break_large_paragraph None [97, 46, 32, 98, 46] = [[97, 46, 32, 98, 46]]"
    by (simp add: break_large_paragraph_def sentences_of_def is_sentence_end_def strip_def
        isspace_def count_tokens_def SUB_CHUNK_SIZE_def)
  with break_large_paragraph_nonempty [of None "[97, 46, 32, 98, 46]"] show ?thesis
    by simp
qed

section \<open>The pieces of force\_substring\_chunks\<close>


lemma join_sp_words:
  "\<forall>w\<in>set ws. nows w = w \<Longrightarrow> length (nows (join_sp ws)) = length (concat ws)"
  by (simp add: nows_join_sp map_idI)

lemma fsc_loop_bound:
  "0 \<le> N \<Longrightarrow> fsc_loop N ws res ct ctext = (res', ctext') \<Longrightarrow>
   ct = length (concat ctext) \<Longrightarrow>
   \<forall>w\<in>set ctext \<union> set ws. nows w = w \<Longrightarrow>
   set ws \<subseteq> W \<Longrightarrow>
   int ct \<le> N \<or> (\<exists>w. ctext = [w] \<and> N < int (length w) \<and> w \<in> W) \<Longrightarrow>
   \<forall>p\<in>set res. int (length (nows p)) \<le> N \<or> (p \<in> W \<and> N < int (length p)) \<Longrightarrow>
   \<forall>p\<in>set (if ctext' \<noteq> [] then res' @ [join_sp ctext'] else res').
      int (length (nows p)) \<le> N \<or> (p \<in> W \<and> N < int (length p))"
proof (induction N ws res ct ctext rule: fsc_loop.induct)
  case (1 max_size res ct ctext)
  from "1.prems"(3,4,6) have "int (length (nows (join_sp ctext))) \<le> max_size \<or>
      (join_sp ctext \<in> W \<and> max_size < int (length (join_sp ctext)))"
    by (auto simp: join_sp_words)
  with "1.prems"(2,7) show ?case by auto
next
  case (2 max_size w ws res ct ctext)
  from "2.prems"(3,4,6) have piece: "int (length (nows (join_sp ctext))) \<le> max_size \<or>
      (join_sp ctext \<in> W \<and> max_size < int (length (join_sp ctext)))"
    by (auto simp: join_sp_words)
  show ?case
  proof (cases "int (ct + length w) > max_size")
    case True
    with "2.prems"(2) have l: "fsc_loop max_size ws (res @ [join_sp ctext]) (length w) [w] = (res', ctext')"
      by simp
    show ?thesis
    proof (rule "2.IH"(1) [OF True "2.prems"(1) l])
      show "length w = length (concat [w])" by simp
      show "\<forall>w\<in>set [w] \<union> set ws. nows w = w" using "2.prems"(4) by simp
      show "set ws \<subseteq> W" using "2.prems"(5) by simp
      show "int (length w) \<le> max_size \<or> (\<exists>wa. [w] = [wa] \<and> max_size < int (length wa) \<and> wa \<in> W)"
        using "2.prems"(5) by auto
      show "\<forall>p\<in>set (res @ [join_sp ctext]).
       int (length (nows p)) \<le> max_size \<or> p \<in> W \<and> max_size < int (length p)"
        using "2.prems"(7) piece by auto
    qed
  next
    case False
    with "2.prems"(2) have l: "fsc_loop max_size ws res (ct + length w) (ctext @ [w]) = (res', ctext')"
      by simp
    show ?thesis
    proof (rule "2.IH"(2) [OF False "2.prems"(1) l])
      show "ct + length w = length (concat (ctext @ [w]))" using "2.prems"(3) by simp
      show "\<forall>w\<in>set (ctext @ [w]) \<union> set ws. nows w = w" using "2.prems"(4) by simp
      show "set ws \<subseteq> W" using "2.prems"(5) by simp
      show "int (ct + length w) \<le> max_size \<or>
        (\<exists>wa. ctext @ [w] = [wa] \<and> max_size < int (length wa) \<and> wa \<in> W)"
        using False by simp
      show "\<forall>p\<in>set res. int (length (nows p)) \<le> max_size \<or> p \<in> W \<and> max_size < int (length p)"
        using "2.prems"(7) .
    qed
  qed
qed

lemma fsc_loop_alone:
  "fsc_loop N ws res ct ctext = (res', ctext') \<Longrightarrow>
   ct = length (concat ctext) \<Longrightarrow>
   set res \<subseteq> set (if ctext' \<noteq> [] then res' @ [join_sp ctext'] else res') \<and>
   (\<forall>w0. ctext = [w0] \<and> N < int (length w0) \<longrightarrow>
      w0 \<in> set (if ctext' \<noteq> [] then res' @ [join_sp ctext'] else res')) \<and>
   (\<forall>w\<in>set ws. N < int (length w) \<longrightarrow>
      w \<in> set (if ctext' \<noteq> [] then res' @ [join_sp ctext'] else res'))"
proof (induction N ws res ct ctext rule: fsc_loop.induct)
  case (1 max_size res ct ctext)
  then show ?case by auto
next
  case (2 max_size w ws res ct ctext)
  show ?case
  proof (cases "int (ct + length w) > max_size")
    case True
    with "2.prems"(1) have l: "fsc_loop max_size ws (res @ [join_sp ctext]) (length w) [w] = (res', ctext')"
      by simp
    from "2.IH"(1) [OF True l] show ?thesis by auto
  next
    case False
    with "2.prems"(1) have l: "fsc_loop max_size ws res (ct + length w) (ctext @ [w]) = (res', ctext')"
      by simp
    from "2.IH"(2) [OF False l] "2.prems"(2) False show ?thesis by auto
  qed
qed

text \<open>
  C4. The claim bounds the token count of every piece by \<open>N\<close>, a single oversized word
  apart. The source measures a piece by the lengths of its words: the two words of
  \<open>"a b"\<close> have total length 2, and the piece \<open>"a b"\<close> returned for \<open>N = 2\<close> counts 3. What
  holds, for \<open>N \<ge> 0\<close>: in every piece the characters that are not whitespace (they are
  the characters of its words) are at most \<open>N\<close>, unless the piece is one word of the text
  longer than \<open>N\<close>; and every word of the text longer than \<open>N\<close> is a piece of its own.
\<close>

theorem force_substring_chunks_bound:
  assumes "0 \<le> N"
  shows "(\<forall>p\<in>set (force_substring_chunks text N).
            int (length (nows p)) \<le> N \<or> (p \<in> set (split_ws text) \<and> N < int (length p))) \<and>
         (\<forall>w\<in>set (split_ws text). N < int (length w) \<longrightarrow> w \<in> set (force_substring_chunks text N))"
proof -
  obtain res ctext where l: "fsc_loop N (split_ws text) [] 0 [] = (res, ctext)"
    by (cases "fsc_loop N (split_ws text) [] 0 []")
  have f: "force_substring_chunks text N = (if ctext \<noteq> [] then res @ [join_sp ctext] else res)"
    by (simp add: force_substring_chunks_def l)
  have words: "\<forall>w\<in>set [] \<union> set (split_ws text). nows w = w"
    by (auto dest: split_ws_words intro: nows_id)
  from fsc_loop_bound [OF assms l _ words, of "set (split_ws text)"] assms
  have a: "\<forall>p\<in>set (force_substring_chunks text N).
            int (length (nows p)) \<le> N \<or> (p \<in> set (split_ws text) \<and> N < int (length p))"
    unfolding f by simp
  from fsc_loop_alone [OF l]
  have b: "\<forall>w\<in>set (split_ws text). N < int (length w) \<longrightarrow> w \<in> set (force_substring_chunks text N)"
    unfolding f by simp
  from a b show ?thesis ..
qed

theorem force_substring_chunks_counterexample:
  "force_substring_chunks [97, 32, 98] 2 = [[97, 32, 98]] \<and>
   \<not> int (count_tokens None [97, 32, 98]) \<le> 2 \<and>
   split_ws [97, 32, 98] \<noteq> [[97, 32, 98]]"
proof -
  have "force_substring_chunks [97, 32, 98] 2 = [[97, 32, 98]]"
    by (simp add: force_substring_chunks_def isspace_def)
  moreover have "split_ws [97, 32, 98] = [[97], [98]]"
    by (simp add: isspace_def)
  ultimately show ?thesis by (simp add: count_tokens_def)
qed

theorem force_substring_chunks_bound_witness:
  "(0::int) \<le> 2 \<and> [97, 32, 98] \<in> set (force_substring_chunks [97, 32, 98, 32, 97, 97, 97] 2) \<and>
   int (length (nows [97, 32, 98])) \<le> 2 \<and>
   [97, 97, 97] \<in> set (split_ws [97, 32, 98, 32, 97, 97, 97]) \<and> (2::int) < int (length [97, 97, 97 :: nat]) \<and>
   [97, 97, 97] \<in> set (force_substring_chunks [97, 32, 98, 32, 97, 97, 97] 2)"
proof -
  have h: "(0::int) \<le> 2" by simp
  have w: "split_ws [97, 32, 98, 32, 97, 97, 97] = [[97], [98], [97, 97, 97]]"
    by (simp add: isspace_def)
  have f: "force_substring_chunks [97, 32, 98, 32, 97, 97, 97] 2 = [[97, 32, 98], [97, 97, 97]]"
    by (simp add: force_substring_chunks_def w)
  from force_substring_chunks_bound [OF h, of "[97, 32, 98, 32, 97, 97, 97]"] f w
  show ?thesis by simp
qed

section \<open>An empty first piece\<close>

lemma fsc_loop_results_grow:
  "fsc_loop N ws res ct ctext = (res', ctext') \<Longrightarrow> \<exists>r. res' = res @ r"
  by (induction N ws res ct ctext rule: fsc_loop.induct) (auto split: if_splits)

lemma force_first_word_oversized:
  assumes "split_ws text = w # ws" "max_size < int (length w)"
  shows "\<exists>rest. force_substring_chunks text max_size = [] # rest"
proof -
  obtain res ctext where l: "fsc_loop max_size ws [[]] (length w) [w] = (res, ctext)"
    by (cases "fsc_loop max_size ws [[]] (length w) [w]")
  from fsc_loop_results_grow [OF l] obtain r where "res = [] # r" by auto
  with assms l show ?thesis by (simp add: force_substring_chunks_def)
qed

lemma segment_chapter_unbroken:
  assumes big: "MAX_TOKENS < count_tokens enc p" and len: "MAX_TOKENS < length p"
    and nosp: "\<forall>c\<in>set p. \<not> isspace c" and noend: "\<forall>c\<in>set p. \<not> is_sentence_end c"
  shows "segment_chapter enc p = [[], p]"
proof -
  from len have ne: "p \<noteq> []" by auto
  have sp: "strip p = p" using nosp by (rule strip_no_space)
  from big have sub: "SUB_CHUNK_SIZE < count_tokens enc p"
    by (simp add: MAX_TOKENS_def SUB_CHUNK_SIZE_def)
  have blp: "break_large_paragraph enc p = [p]"
    using ne sub by (simp add: break_large_paragraph_def sentences_of_single [OF ne nosp noend] sp)
  have force: "force_substring_chunks p (int MAX_TOKENS) = [[], p]"
    using len ne by (simp add: force_substring_chunks_def split_ws_no_space [OF ne nosp])
  have "seg_loop enc [p] [] [] = ([[], p], [])"
    using big by (simp add: blp force)
  with big show ?thesis
    by (simp add: segment_chapter_def paragraphs_of_single [OF ne nosp])
qed

lemma join_sp_nonempty: "ws \<noteq> [] \<Longrightarrow> hd ws \<noteq> [] \<Longrightarrow> join_sp ws \<noteq> []"
  by (cases ws rule: join_sp.cases) simp_all

lemma fsc_loop_no_empty:
  "fsc_loop N ws res ct ctext = (res', ctext') \<Longrightarrow>
   ctext \<noteq> [] \<Longrightarrow> hd ctext \<noteq> [] \<Longrightarrow> \<forall>w\<in>set ws. w \<noteq> [] \<Longrightarrow> [] \<notin> set res \<Longrightarrow>
   [] \<notin> set res' \<and> ctext' \<noteq> [] \<and> hd ctext' \<noteq> []"
proof (induction N ws res ct ctext rule: fsc_loop.induct)
  case (1 max_size res ct ctext)
  then show ?case by simp
next
  case (2 max_size w ws res ct ctext)
  show ?case
  proof (cases "int (ct + length w) > max_size")
    case True
    with "2.prems"(1) have l: "fsc_loop max_size ws (res @ [join_sp ctext]) (length w) [w] = (res', ctext')"
      by simp
    from "2.prems" have "[] \<notin> set (res @ [join_sp ctext])"
      using join_sp_nonempty [of ctext] by auto
    with "2.IH"(1) [OF True l] "2.prems"(4) show ?thesis by simp
  next
    case False
    with "2.prems"(1) have l: "fsc_loop max_size ws res (ct + length w) (ctext @ [w]) = (res', ctext')"
      by simp
    from "2.IH"(2) [OF False l] "2.prems"(2,3,4,5) show ?thesis by simp
  qed
qed

lemma force_empty_iff:
  "[] \<in> set (force_substring_chunks s N) \<longleftrightarrow>
     (\<exists>w ws. split_ws s = w # ws \<and> N < int (length w))"
proof
  assume "\<exists>w ws. split_ws s = w # ws \<and> N < int (length w)"
  then obtain w ws where "split_ws s = w # ws" "N < int (length w)" by blast
  from force_first_word_oversized [OF this] show "[] \<in> set (force_substring_chunks s N)"
    by auto
next
  assume e: "[] \<in> set (force_substring_chunks s N)"
  show "\<exists>w ws. split_ws s = w # ws \<and> N < int (length w)"
  proof (cases "split_ws s")
    case Nil
    with e show ?thesis by (simp add: force_substring_chunks_def)
  next
    case (Cons w ws)
    have words: "\<forall>v\<in>set (w # ws). v \<noteq> []"
      using split_ws_words [of _ s] by (auto simp: Cons)
    have "N < int (length w)"
    proof (rule ccontr)
      assume "\<not> N < int (length w)"
      then have small: "\<not> int (0 + length w) > N" by simp
      obtain res ctext where l: "fsc_loop N ws [] (0 + length w) ([] @ [w]) = (res, ctext)"
        by (cases "fsc_loop N ws [] (0 + length w) ([] @ [w])")
      from fsc_loop_no_empty [OF l] words have "[] \<notin> set res \<and> ctext \<noteq> [] \<and> hd ctext \<noteq> []"
        by simp
      then have "[] \<notin> set (res @ [join_sp ctext])"
        using join_sp_nonempty [of ctext] by auto
      moreover from small l have "force_substring_chunks s N = res @ [join_sp ctext]"
        using \<open>[] \<notin> set res \<and> ctext \<noteq> [] \<and> hd ctext \<noteq> []\<close>
        by (simp add: force_substring_chunks_def Cons)
      ultimately show False using e by simp
    qed
    with Cons show ?thesis by blast
  qed
qed

lemma break_large_paragraph_chunk_nonempty:
  assumes "sc \<in> set (break_large_paragraph enc p)"
  shows "sc \<noteq> []"
proof -
  obtain chunks cur where l: "blp_loop enc (sentences_of p) [] [] = (chunks, cur)"
    by (cases "blp_loop enc (sentences_of p) [] []")
  from blp_loop_nonempty [OF l] have "\<forall>c\<in>set chunks. c \<noteq> []" by simp
  with assms show ?thesis by (auto simp: break_large_paragraph_def l split: if_splits)
qed

lemma emit_subchunks_empty_iff:
  "\<forall>sc\<in>set scs. sc \<noteq> [] \<Longrightarrow>
   [] \<in> set (emit_subchunks enc scs segs) \<longleftrightarrow>
     [] \<in> set segs \<or>
     (\<exists>sc\<in>set scs. MAX_TOKENS < count_tokens enc sc \<and>
        [] \<in> set (force_substring_chunks sc (int MAX_TOKENS)))"
  by (induction enc scs segs rule: emit_subchunks.induct) auto

lemma seg_loop_empty_iff:
  "seg_loop enc ps segs cur = (segs', cur') \<Longrightarrow>
   cur = [] \<or> nows cur \<noteq> [] \<Longrightarrow> \<forall>p\<in>set ps. nows p \<noteq> [] \<Longrightarrow>
   (cur' = [] \<or> nows cur' \<noteq> []) \<and>
   ([] \<in> set segs' \<longleftrightarrow>
      [] \<in> set segs \<or>
      (\<exists>p\<in>set ps. MAX_TOKENS < count_tokens enc p \<and>
         (\<exists>sc\<in>set (break_large_paragraph enc p). MAX_TOKENS < count_tokens enc sc \<and>
            [] \<in> set (force_substring_chunks sc (int MAX_TOKENS)))))"
proof (induction ps arbitrary: segs cur)
  case Nil
  then show ?case by simp
next
  case (Cons para ps)
  have "cur \<noteq> [] \<Longrightarrow> strip cur \<noteq> []"
    using Cons.prems(2) by (simp add: strip_eq_Nil_iff)
  then have flush: "[] \<in> set (if cur \<noteq> [] then segs @ [strip cur] else segs) \<longleftrightarrow> [] \<in> set segs"
    by (cases "cur = []") (simp_all add: eq_commute [of "[]"])
  from Cons.prems(3) have rest: "\<forall>p\<in>set ps. nows p \<noteq> []" and para: "nows para \<noteq> []" by simp_all
  show ?case
  proof (cases "count_tokens enc para > MAX_TOKENS")
    case True
    with Cons.prems(1)
    have l: "seg_loop enc ps (emit_subchunks enc (break_large_paragraph enc para)
               (if cur \<noteq> [] then segs @ [strip cur] else segs)) [] = (segs', cur')"
      by (simp add: Let_def)
    have ne: "\<forall>sc\<in>set (break_large_paragraph enc para). sc \<noteq> []"
      by (auto dest: break_large_paragraph_chunk_nonempty)
    from Cons.IH [OF l _ rest] True show ?thesis
      unfolding emit_subchunks_empty_iff [OF ne] flush by auto
  next
    case False
    show ?thesis
    proof (cases "count_tokens enc (strip (cur @ para)) > MAX_TOKENS")
      case True
      with False Cons.prems(1)
      have l: "seg_loop enc ps (if cur \<noteq> [] then segs @ [strip cur] else segs) (para @ [10, 10]) = (segs', cur')"
        by (simp add: Let_def)
      from para have "para @ [10, 10] = [] \<or> nows (para @ [10, 10]) \<noteq> []" by simp
      from Cons.IH [OF l this rest] False show ?thesis unfolding flush by auto
    next
      case c: False
      with False Cons.prems(1)
      have l: "seg_loop enc ps segs (cur @ [10, 10] @ para) = (segs', cur')"
        by (simp add: Let_def)
      from para have "cur @ [10, 10] @ para = [] \<or> nows (cur @ [10, 10] @ para) \<noteq> []" by simp
      from Cons.IH [OF l this rest] False show ?thesis by auto
    qed
  qed
qed

lemma paragraphs_of_nows: "p \<in> set (paragraphs_of T) \<Longrightarrow> nows p \<noteq> []"
  by (auto simp: paragraphs_of_def strip_eq_Nil_iff)

lemma segment_chapter_emits_empty_iff:
  assumes "MAX_TOKENS < count_tokens enc T"
  shows "[] \<in> set (segment_chapter enc T) \<longleftrightarrow>
     (\<exists>p\<in>set (paragraphs_of T). MAX_TOKENS < count_tokens enc p \<and>
        (\<exists>sc\<in>set (break_large_paragraph enc p). MAX_TOKENS < count_tokens enc sc \<and>
           (\<exists>w ws. split_ws sc = w # ws \<and> MAX_TOKENS < length w)))"
proof -
  obtain segs cur where l: "seg_loop enc (paragraphs_of T) [] [] = (segs, cur)"
    by (cases "seg_loop enc (paragraphs_of T) [] []")
  from seg_loop_empty_iff [OF l] paragraphs_of_nows [of _ T]
  have c: "cur = [] \<or> nows cur \<noteq> []"
    and e: "[] \<in> set segs \<longleftrightarrow>
      (\<exists>p\<in>set (paragraphs_of T). MAX_TOKENS < count_tokens enc p \<and>
         (\<exists>sc\<in>set (break_large_paragraph enc p). MAX_TOKENS < count_tokens enc sc \<and>
            [] \<in> set (force_substring_chunks sc (int MAX_TOKENS))))"
    by auto
  from c have "cur \<noteq> [] \<Longrightarrow> strip cur \<noteq> []"
    by (simp add: strip_eq_Nil_iff)
  with assms have "[] \<in> set (segment_chapter enc T) \<longleftrightarrow> [] \<in> set segs"
    by (cases "cur = []") (simp_all add: segment_chapter_def l eq_commute [of "[]"])
  then show ?thesis unfolding e force_empty_iff by simp
qed

text \<open>
  C10. When the first word of the text is longer than \<open>max_size\<close>, the first piece of
  \<open>force_substring_chunks\<close> is the empty string: the loop appends the join of the still
  empty \<open>current_text\<close>. The claim goes on: a paragraph over \<open>MAX_TOKENS\<close> without whitespace
  makes \<open>segment_chapter\<close> emit an empty segment. That fails when sentence-ending characters
  cut the paragraph into sub-chunks within \<open>MAX_TOKENS\<close>, which are emitted as they are.
  What holds, for any encoder: a chapter text counted over \<open>MAX_TOKENS\<close> yields an empty
  segment exactly when one of its paragraphs is counted over \<open>MAX_TOKENS\<close> and one of the
  sub-chunks that \<open>break_large_paragraph\<close> makes of that paragraph is counted over
  \<open>MAX_TOKENS\<close> and begins with a word longer than \<open>MAX_TOKENS\<close>.
\<close>

theorem force_empty_first_piece:
  "(split_ws text = w # ws \<and> max_size < int (length w) \<longrightarrow>
      (\<exists>rest. force_substring_chunks text max_size = [] # rest)) \<and>
   (MAX_TOKENS < count_tokens enc T \<longrightarrow>
      ([] \<in> set (segment_chapter enc T) \<longleftrightarrow>
         (\<exists>p\<in>set (paragraphs_of T). MAX_TOKENS < count_tokens enc p \<and>
            (\<exists>sc\<in>set (break_large_paragraph enc p). MAX_TOKENS < count_tokens enc sc \<and>
               (\<exists>v vs. split_ws sc = v # vs \<and> MAX_TOKENS < length v)))))"
  using force_first_word_oversized [of "text" w ws max_size] segment_chapter_emits_empty_iff [of enc T]
  by blast

theorem force_empty_first_piece_witness:
  "split_ws [97, 97, 97, 32, 98] = [97, 97, 97] # [[98]] \<and> (2::int) < int (length [97, 97, 97 :: nat]) \<and>
   force_substring_chunks [97, 97, 97, 32, 98] 2 = [[], [97, 97, 97], [98]] \<and>
   MAX_TOKENS < count_tokens None ([31532, 19968, 22238] @ [10, 10] @ replicate 6001 97 @ [12290]) \<and>
   paragraphs_of ([31532, 19968, 22238] @ [10, 10] @ replicate 6001 97 @ [12290]) =
     [[31532, 19968, 22238], replicate 6001 97 @ [12290]] \<and>
   MAX_TOKENS < count_tokens None (replicate 6001 97 @ [12290]) \<and>
   break_large_paragraph None (replicate 6001 97 @ [12290]) = [replicate 6001 97 @ [12290]] \<and>
   split_ws (replicate 6001 97 @ [12290]) = (replicate 6001 97 @ [12290]) # [] \<and>
   MAX_TOKENS < length (replicate 6001 97 @ [12290 :: nat]) \<and>
   [] \<in> set (segment_chapter None ([31532, 19968, 22238] @ [10, 10] @ replicate 6001 97 @ [12290]))"
proof -
  define H :: ustring where "H = [31532, 19968, 22238]"
  define P :: ustring where "P = replicate 6001 97 @ [12290]"
  have w: "split_ws [97, 97, 97, 32, 98] = [97, 97, 97] # [[98]]" by simp
  have f: "force_substring_chunks [97, 97, 97, 32, 98] 2 = [[], [97, 97, 97], [98]]"
    by (simp add: force_substring_chunks_def)
  have lenP: "length P = 6002" by (simp add: P_def)
  have nospH: "\<forall>c\<in>set H. \<not> isspace c" by (simp add: H_def isspace_def)
  have nospP: "\<forall>c\<in>set P. \<not> isspace c" by (simp add: P_def isspace_def)
  have neH: "H \<noteq> []" and neP: "P \<noteq> []" by (simp_all add: H_def P_def)
  have big: "MAX_TOKENS < count_tokens None (H @ [10, 10] @ P)"
    by (simp add: count_tokens_def MAX_TOKENS_def lenP)
  have bigP: "MAX_TOKENS < count_tokens None P"
    by (simp add: count_tokens_def MAX_TOKENS_def lenP)
  have "10 \<notin> set H" "10 \<notin> set P" by (simp_all add: H_def P_def)
  then have "split_nn [] (H @ 10 # 10 # P) = [H, P]"
    by (simp add: split_nn_at_lf split_nn_no_lf)
  then have paras: "paragraphs_of (H @ [10, 10] @ P) = [H, P]"
    using neH neP by (simp add: paragraphs_of_def strip_no_space [OF nospH] strip_no_space [OF nospP])
  have "re_split_sentences [] P = [P, []]"
    unfolding P_def by (simp add: re_split_at_end is_sentence_end_def)
  then have sents: "sentences_of P = [P]"
    using neP by (simp add: sentences_of_def strip_no_space [OF nospP])
  have blp: "break_large_paragraph None P = [P]"
    using neP by (simp add: break_large_paragraph_def sents strip_no_space [OF nospP]
        count_tokens_def lenP SUB_CHUNK_SIZE_def)
  have words: "split_ws P = P # []" using neP nospP by (simp add: split_ws_no_space)
  have lP: "MAX_TOKENS < length P" by (simp add: lenP MAX_TOKENS_def)
  have "\<exists>p\<in>set (paragraphs_of (H @ [10, 10] @ P)). MAX_TOKENS < count_tokens None p \<and>
            (\<exists>sc\<in>set (break_large_paragraph None p). MAX_TOKENS < count_tokens None sc \<and>
               (\<exists>v vs. split_ws sc = v # vs \<and> MAX_TOKENS < length v))"
    unfolding paras using bigP blp words lP by auto
  with force_empty_first_piece [of "[97, 97, 97, 32, 98]" "[97, 97, 97]" "[[98]]" 2 None "H @ [10, 10] @ P"] w big
  have "[] \<in> set (segment_chapter None (H @ [10, 10] @ P))" by blast
  with w f big paras bigP blp words lP show ?thesis by (simp add: H_def P_def)
qed

text \<open>A paragraph over \<open>MAX_TOKENS\<close> without whitespace, and no empty segment.\<close>

theorem segment_chapter_no_empty_counterexample:
  "MAX_TOKENS < count_tokens None (replicate 3000 97 @ [46] @ replicate 3000 98 @ [46]) \<and>
   nows (replicate 3000 97 @ [46] @ replicate 3000 98 @ [46]) = replicate 3000 97 @ [46] @ replicate 3000 98 @ [46] \<and>
   segment_chapter None (replicate 3000 97 @ [46] @ replicate 3000 98 @ [46]) =
     [replicate 3000 97 @ [46], replicate 3000 98 @ [46]]"
proof -
  define A :: ustring where "A = replicate 3000 97 @ [46]"
  define B :: ustring where "B = replicate 3000 98 @ [46]"
  have lenA: "length A = 3001" and lenB: "length B = 3001" by (simp_all add: A_def B_def)
  have nospA: "\<forall>c\<in>set A. \<not> isspace c" and nospB: "\<forall>c\<in>set B. \<not> isspace c"
    by (simp_all add: A_def B_def)
  have neA: "A \<noteq> []" and neB: "B \<noteq> []" by (simp_all add: A_def B_def)
  have nosp: "\<forall>c\<in>set (A @ B). \<not> isspace c" using nospA nospB by auto
  have big: "MAX_TOKENS < count_tokens None (A @ B)"
    by (simp add: count_tokens_def MAX_TOKENS_def lenA lenB)
  have nw: "nows (A @ B) = A @ B" using nosp by (rule nows_id)
  have paras: "paragraphs_of (A @ B) = [A @ B]"
    using neA nosp by (intro paragraphs_of_single) simp_all
  have "re_split_sentences [] (A @ B) = [A, B, []]"
    unfolding A_def B_def by (simp add: re_split_at_end re_split_no_end)
  then have sents: "sentences_of (A @ B) = [A, B]"
    using neA neB by (simp add: sentences_of_def strip_no_space [OF nospA] strip_no_space [OF nospB])
  have sAB: "strip (A @ 32 # B) = A @ 32 # B"
    by (rule strip_id) (simp_all add: A_def B_def)
  have ov: "overlap_loop (rev (split_ws A)) [] 0 = []"
    by (simp add: split_ws_no_space [OF neA nospA] lenA OVERLAP_TOKENS_def)
  have blp: "break_large_paragraph None (A @ B) = [A, B]"
    using neA neB
    by (simp add: break_large_paragraph_def sents strip_no_space [OF nospA] strip_no_space [OF nospB]
        sAB ov count_tokens_def lenA lenB SUB_CHUNK_SIZE_def OVERLAP_TOKENS_def)
  have "seg_loop None [A @ B] [] [] = ([A, B], [])"
    using big by (simp add: blp) (simp add: count_tokens_def lenA lenB MAX_TOKENS_def)
  with big have "segment_chapter None (A @ B) = [A, B]"
    by (simp add: segment_chapter_def paras)
  with big nw show ?thesis by (simp add: A_def B_def)
qed

section \<open>Segments over the budget\<close>

text \<open>
  C1. With the character count, the chapter of the two paragraphs \<open>a\<close> times 3000 and
  \<open>b\<close> times 3000, separated by a blank line, has 6002 characters and comes back as one
  segment of 6002 characters, over \<open>MAX_TOKENS\<close>; its two words have 3000 characters each.
  The candidate of the accumulator, \<open>(current_segment + para).strip()\<close>, lacks the
  separator that \<open>current_segment += "\n\n" + para\<close> then adds.
\<close>

theorem segment_chapter_two_paragraphs_exceed:
  "segment_chapter None (replicate 3000 97 @ [10, 10] @ replicate 3000 98) =
     [replicate 3000 97 @ [10, 10] @ replicate 3000 98] \<and>
   count_tokens None (replicate 3000 97 @ [10, 10] @ replicate 3000 98) = 6002 \<and>
   MAX_TOKENS = 6000 \<and>
   split_ws (replicate 3000 97 @ [10, 10] @ replicate 3000 98) = [replicate 3000 97, replicate 3000 98] \<and>
   count_tokens None (replicate 3000 97) = 3000 \<and> count_tokens None (replicate 3000 98) = 3000"
proof -
  define A :: ustring where "A = replicate 3000 97"
  define B :: ustring where "B = replicate 3000 98"
  have lenA: "length A = 3000" and lenB: "length B = 3000" by (simp_all add: A_def B_def)
  have nospA: "\<forall>c\<in>set A. \<not> isspace c" and nospB: "\<forall>c\<in>set B. \<not> isspace c"
    by (simp_all add: A_def B_def)
  have neA: "A \<noteq> []" and neB: "B \<noteq> []" using lenA lenB by auto
  have nolfA: "10 \<notin> set A" and nolfB: "10 \<notin> set B" by (simp_all add: A_def B_def)
  have "split_nn [] (A @ 10 # 10 # B) = [A, B]"
    by (simp add: split_nn_at_lf [OF nolfA] split_nn_no_lf [OF nolfB])
  then have paras: "paragraphs_of (A @ 10 # 10 # B) = [A, B]"
    using neA neB by (simp add: paragraphs_of_def strip_no_space [OF nospA] strip_no_space [OF nospB])
  have sAB: "strip (A @ B) = A @ B"
    using nospA nospB by (intro strip_no_space) auto
  have s2: "strip (10 # 10 # A @ 10 # 10 # B) = A @ 10 # 10 # B"
    unfolding strip_lf_lf by (rule strip_id) (simp_all add: A_def B_def)
  have loop: "seg_loop None [A, B] [] [] = ([], 10 # 10 # A @ 10 # 10 # B)"
    by (simp add: count_tokens_def lenA lenB MAX_TOKENS_def strip_no_space [OF nospA] strip_lf_lf sAB)
  have seg: "segment_chapter None (A @ 10 # 10 # B) = [A @ 10 # 10 # B]"
    unfolding segment_chapter_def paras loop
    by (simp add: s2 count_tokens_def lenA lenB MAX_TOKENS_def)
  have "split_ws (A @ 10 # 10 # B) = [A, B]"
    by (simp add: split_ws_word_then_space [OF neA nospA] split_ws_no_space [OF neB nospB])
  with seg show ?thesis
    by (simp add: A_def B_def count_tokens_def MAX_TOKENS_def)
qed

text \<open>
  C7. With the character count, three paragraphs of 1999 characters each, separated by
  blank lines: each is within \<open>MAX_TOKENS\<close>, the first two joined have 4000 characters,
  the chapter has 6001. The source returns one segment, the whole chapter, not two: the
  candidate for the third paragraph has 5999 characters, the separator before the third
  paragraph not being counted.
\<close>

theorem segment_chapter_three_paragraphs_one_segment:
  "paragraphs_of (replicate 1999 97 @ [10, 10] @ replicate 1999 98 @ [10, 10] @ replicate 1999 99) =
     [replicate 1999 97, replicate 1999 98, replicate 1999 99] \<and>
   count_tokens None (replicate 1999 97) \<le> MAX_TOKENS \<and>
   count_tokens None (replicate 1999 98) \<le> MAX_TOKENS \<and>
   count_tokens None (replicate 1999 99) \<le> MAX_TOKENS \<and>
   count_tokens None (replicate 1999 97 @ [10, 10] @ replicate 1999 98) \<le> MAX_TOKENS \<and>
   MAX_TOKENS < count_tokens None (replicate 1999 97 @ [10, 10] @ replicate 1999 98 @ [10, 10] @ replicate 1999 99) \<and>
   segment_chapter None (replicate 1999 97 @ [10, 10] @ replicate 1999 98 @ [10, 10] @ replicate 1999 99) =
     [replicate 1999 97 @ [10, 10] @ replicate 1999 98 @ [10, 10] @ replicate 1999 99]"
proof -
  define A :: ustring where "A = replicate 1999 97"
  define B :: ustring where "B = replicate 1999 98"
  define C :: ustring where "C = replicate 1999 99"
  have len: "length A = 1999" "length B = 1999" "length C = 1999" by (simp_all add: A_def B_def C_def)
  have nosp: "\<forall>c\<in>set A. \<not> isspace c" "\<forall>c\<in>set B. \<not> isspace c" "\<forall>c\<in>set C. \<not> isspace c"
    by (simp_all add: A_def B_def C_def)
  have ne: "A \<noteq> []" "B \<noteq> []" "C \<noteq> []" using len by auto
  have nolf: "10 \<notin> set A" "10 \<notin> set B" "10 \<notin> set C" by (simp_all add: A_def B_def C_def)
  have st: "strip A = A" "strip B = B" "strip C = C" using nosp by (simp_all add: strip_no_space)
  have "split_nn [] (A @ 10 # 10 # B @ 10 # 10 # C) = [A, B, C]"
    by (simp add: split_nn_at_lf nolf split_nn_no_lf)
  then have paras: "paragraphs_of (A @ 10 # 10 # B @ 10 # 10 # C) = [A, B, C]"
    using ne by (simp add: paragraphs_of_def st)
  have sAB: "strip (A @ B) = A @ B"
    using nosp by (intro strip_no_space) auto
  have sABC: "strip (A @ 10 # 10 # B @ C) = A @ 10 # 10 # B @ C"
    by (rule strip_id) (simp_all add: A_def C_def)
  have s3: "strip (A @ 10 # 10 # B @ 10 # 10 # C) = A @ 10 # 10 # B @ 10 # 10 # C"
    by (rule strip_id) (simp_all add: A_def C_def)
  have loop: "seg_loop None [A, B, C] [] [] = ([], 10 # 10 # A @ 10 # 10 # B @ 10 # 10 # C)"
    by (simp add: count_tokens_def len MAX_TOKENS_def st strip_lf_lf sAB sABC)
  have seg: "segment_chapter None (A @ 10 # 10 # B @ 10 # 10 # C) = [A @ 10 # 10 # B @ 10 # 10 # C]"
    unfolding segment_chapter_def paras loop
    by (simp add: strip_lf_lf s3 count_tokens_def len MAX_TOKENS_def)
  from paras seg show ?thesis
    by (simp add: A_def B_def C_def count_tokens_def MAX_TOKENS_def)
qed

text \<open>
  The packing of three paragraphs that fit one by one, in the terms of the source: the first
  two stay together when their concatenation is within \<open>MAX_TOKENS\<close>, and the third starts
  a new segment when the first two, joined by the blank line, followed by the third without
  a separator, are over \<open>MAX_TOKENS\<close>.
\<close>

lemma segment_chapter_three_paragraphs:
  assumes paras: "paragraphs_of T = [p1, p2, p3]"
    and big: "MAX_TOKENS < count_tokens enc T"
    and c1: "count_tokens enc p1 \<le> MAX_TOKENS"
    and c2: "count_tokens enc p2 \<le> MAX_TOKENS"
    and c3: "count_tokens enc p3 \<le> MAX_TOKENS"
    and c12: "count_tokens enc (p1 @ p2) \<le> MAX_TOKENS"
    and c123: "MAX_TOKENS < count_tokens enc (p1 @ [10, 10] @ p2 @ p3)"
  shows "segment_chapter enc T = [p1 @ [10, 10] @ p2, p3]"
proof -
  have e: "p1 \<noteq> []" "\<not> isspace (hd p1)" "\<not> isspace (last p1)"
    "p2 \<noteq> []" "\<not> isspace (hd p2)" "\<not> isspace (last p2)"
    "p3 \<noteq> []" "\<not> isspace (hd p3)" "\<not> isspace (last p3)"
    using paragraphs_of_elem [of p1 T] paragraphs_of_elem [of p2 T] paragraphs_of_elem [of p3 T]
    by (simp_all add: paras)
  have s1: "strip p1 = p1" using e by (simp add: strip_id)
  have s12: "strip (10 # 10 # p1 @ p2) = p1 @ p2"
    using strip_between [of p1 p2 "[]"] e by (simp add: strip_lf_lf)
  have s12': "strip (10 # 10 # p1 @ 10 # 10 # p2) = p1 @ 10 # 10 # p2"
    using strip_between [of p1 p2 "[10, 10]"] e by (simp add: strip_lf_lf)
  have s123: "strip (10 # 10 # p1 @ 10 # 10 # p2 @ p3) = p1 @ 10 # 10 # p2 @ p3"
    using strip_between [of p1 p3 "[10, 10] @ p2"] e by (simp add: strip_lf_lf)
  have s3: "strip (p3 @ [10, 10]) = p3"
    using strip_snoc_space [of 10 "p3 @ [10]"] strip_snoc_space [of 10 p3] e by (simp add: strip_id)
  have st1: "seg_loop enc [p1, p2, p3] [] [] = seg_loop enc [p2, p3] [] (10 # 10 # p1)"
    using c1 by (simp add: s1)
  have st2: "seg_loop enc [p2, p3] [] (10 # 10 # p1) = seg_loop enc [p3] [] (10 # 10 # p1 @ 10 # 10 # p2)"
    using c2 c12 by (simp add: s12)
  have st3: "seg_loop enc [p3] [] (10 # 10 # p1 @ 10 # 10 # p2) = ([p1 @ 10 # 10 # p2], p3 @ [10, 10])"
    using c3 c123 by (simp add: s123 s12')
  from big show ?thesis
    unfolding segment_chapter_def paras st1 st2 st3 using e by (simp add: s3)
qed

text \<open>
  What bounds every segment, with the character count: its characters that are not
  whitespace are at most \<open>MAX_TOKENS\<close>, unless the segment is one word longer than
  \<open>MAX_TOKENS\<close>.
\<close>

lemma emit_subchunks_bound:
  "\<forall>s\<in>set segs. length (nows s) \<le> MAX_TOKENS \<or> (split_ws s = [s] \<and> MAX_TOKENS < length s) \<Longrightarrow>
   \<forall>s\<in>set (emit_subchunks None scs segs).
      length (nows s) \<le> MAX_TOKENS \<or> (split_ws s = [s] \<and> MAX_TOKENS < length s)"
proof (induction scs arbitrary: segs)
  case Nil
  then show ?case by simp
next
  case (Cons sc scs)
  show ?case
  proof (cases "count_tokens None sc \<le> MAX_TOKENS")
    case True
    then have "length (nows sc) \<le> MAX_TOKENS"
      using length_nows_le [of sc] by (simp add: count_tokens_def)
    with Cons.prems have "\<forall>s\<in>set (segs @ [sc]).
       length (nows s) \<le> MAX_TOKENS \<or> (split_ws s = [s] \<and> MAX_TOKENS < length s)" by simp
    from Cons.IH [OF this] True show ?thesis by simp
  next
    case False
    obtain res ctext where l: "fsc_loop (int MAX_TOKENS) (split_ws sc) [] 0 [] = (res, ctext)"
      by (cases "fsc_loop (int MAX_TOKENS) (split_ws sc) [] 0 []")
    have f: "force_substring_chunks sc (int MAX_TOKENS) = (if ctext \<noteq> [] then res @ [join_sp ctext] else res)"
      by (simp add: force_substring_chunks_def l)
    have words: "\<forall>w\<in>set [] \<union> set (split_ws sc). nows w = w"
      by (auto dest: split_ws_words intro: nows_id)
    from fsc_loop_bound [OF _ l _ words, of "set (split_ws sc)"]
    have "\<forall>p\<in>set (force_substring_chunks sc (int MAX_TOKENS)).
        int (length (nows p)) \<le> int MAX_TOKENS \<or> (p \<in> set (split_ws sc) \<and> int MAX_TOKENS < int (length p))"
      unfolding f by simp
    moreover have "split_ws p = [p]" if "p \<in> set (split_ws sc)" for p
      using split_ws_words [OF that] by (simp add: split_ws_no_space)
    ultimately have "\<forall>p\<in>set (force_substring_chunks sc (int MAX_TOKENS)).
        length (nows p) \<le> MAX_TOKENS \<or> (split_ws p = [p] \<and> MAX_TOKENS < length p)"
      by auto
    with Cons.prems have "\<forall>s\<in>set (segs @ force_substring_chunks sc (int MAX_TOKENS)).
       length (nows s) \<le> MAX_TOKENS \<or> (split_ws s = [s] \<and> MAX_TOKENS < length s)" by auto
    from Cons.IH [OF this] False show ?thesis by simp
  qed
qed

lemma seg_loop_bound:
  "seg_loop None ps segs cur = (segs', cur') \<Longrightarrow>
   length (nows cur) \<le> MAX_TOKENS \<Longrightarrow>
   \<forall>s\<in>set segs. length (nows s) \<le> MAX_TOKENS \<or> (split_ws s = [s] \<and> MAX_TOKENS < length s) \<Longrightarrow>
   length (nows cur') \<le> MAX_TOKENS \<and>
   (\<forall>s\<in>set segs'. length (nows s) \<le> MAX_TOKENS \<or> (split_ws s = [s] \<and> MAX_TOKENS < length s))"
proof (induction ps arbitrary: segs cur)
  case Nil
  then show ?case by simp
next
  case (Cons para ps)
  have flush: "\<forall>s\<in>set (if cur \<noteq> [] then segs @ [strip cur] else segs).
      length (nows s) \<le> MAX_TOKENS \<or> (split_ws s = [s] \<and> MAX_TOKENS < length s)"
    using Cons.prems(2,3) by auto
  show ?case
  proof (cases "count_tokens None para > MAX_TOKENS")
    case True
    with Cons.prems(1)
    have l: "seg_loop None ps (emit_subchunks None (break_large_paragraph None para)
               (if cur \<noteq> [] then segs @ [strip cur] else segs)) [] = (segs', cur')"
      by (simp add: Let_def)
    from Cons.IH [OF l _ emit_subchunks_bound [OF flush]] show ?thesis by simp
  next
    case False
    then have para: "length (nows para) \<le> MAX_TOKENS"
      using length_nows_le [of para] by (simp add: count_tokens_def)
    show ?thesis
    proof (cases "count_tokens None (strip (cur @ para)) > MAX_TOKENS")
      case True
      with False Cons.prems(1)
      have l: "seg_loop None ps (if cur \<noteq> [] then segs @ [strip cur] else segs) (para @ [10, 10]) = (segs', cur')"
        by (simp add: Let_def)
      from para have "length (nows (para @ [10, 10])) \<le> MAX_TOKENS" by simp
      from Cons.IH [OF l this flush] show ?thesis .
    next
      case c: False
      with False Cons.prems(1)
      have l: "seg_loop None ps segs (cur @ [10, 10] @ para) = (segs', cur')"
        by (simp add: Let_def)
      have "length (nows (cur @ [10, 10] @ para)) = length (nows (strip (cur @ para)))" by simp
      also have "\<dots> \<le> length (strip (cur @ para))" by (rule length_nows_le)
      also have "\<dots> \<le> MAX_TOKENS" using c by (simp add: count_tokens_def)
      finally have "length (nows (cur @ [10, 10] @ para)) \<le> MAX_TOKENS" .
      from Cons.IH [OF l this Cons.prems(3)] show ?thesis .
    qed
  qed
qed

lemma segment_chapter_nows_bound:
  assumes "s \<in> set (segment_chapter None T)"
  shows "length (nows s) \<le> MAX_TOKENS \<or> (split_ws s = [s] \<and> MAX_TOKENS < length s)"
proof (cases "count_tokens None T \<le> MAX_TOKENS")
  case True
  with assms have "s = T" by (simp add: segment_chapter_def)
  with True length_nows_le [of T] show ?thesis by (simp add: count_tokens_def)
next
  case False
  obtain segs cur where l: "seg_loop None (paragraphs_of T) [] [] = (segs, cur)"
    by (cases "seg_loop None (paragraphs_of T) [] []")
  from seg_loop_bound [OF l] have
    "length (nows cur) \<le> MAX_TOKENS"
    "\<forall>s\<in>set segs. length (nows s) \<le> MAX_TOKENS \<or> (split_ws s = [s] \<and> MAX_TOKENS < length s)"
    by simp_all
  with assms False show ?thesis
    by (auto simp: segment_chapter_def l split: if_splits)
qed

section \<open>Two or more segments\<close>

lemma count_nonempty_simps [simp]:
  "count_nonempty [] = 0"
  "count_nonempty (x # xs) = (if x = [] then 0 else 1) + count_nonempty xs"
  "count_nonempty (xs @ ys) = count_nonempty xs + count_nonempty ys"
  by (simp_all add: count_nonempty_def)

lemma count_nonempty_le: "count_nonempty xs \<le> length xs"
  by (simp add: count_nonempty_def)

lemma count_nonempty_all: "\<forall>x\<in>set xs. x \<noteq> [] \<Longrightarrow> count_nonempty xs = length xs"
  by (induction xs) simp_all

subsection \<open>The words of the parts of a text\<close>

lemma split_ws_leading: "\<forall>c\<in>set sp. isspace c \<Longrightarrow> split_ws (sp @ t) = split_ws t"
  by (induction sp) simp_all

lemma split_ws_all_space: "\<forall>c\<in>set sp. isspace c \<Longrightarrow> split_ws sp = []"
  using split_ws_leading [of sp "[]"] by simp

lemma split_ws_word_then:
  assumes "w \<noteq> []" "\<forall>c\<in>set w. \<not> isspace c" "t = [] \<or> isspace (hd t)"
  shows "split_ws (w @ t) = w # split_ws t"
proof (cases t)
  case Nil
  with assms show ?thesis by (simp add: split_ws_no_space)
next
  case (Cons d t')
  with assms(3) have "isspace d" by simp
  from split_ws_word_then_space [OF assms(1,2) this, of t'] this show ?thesis
    by (simp add: Cons)
qed

lemma split_ws_append_space:
  "isspace c \<Longrightarrow> split_ws (a @ c # b) = split_ws a @ split_ws b"
proof (induction a rule: split_ws.induct)
  case (1 a)
  define a' where "a' = dropWhile isspace a"
  have a: "a = takeWhile isspace a @ a'" by (simp add: a'_def)
  have lead: "\<forall>x\<in>set (takeWhile isspace a). isspace x" by (auto dest: set_takeWhileD)
  show ?case
  proof (cases "a' = []")
    case True
    with a have "a = takeWhile isspace a" by simp
    with lead have all: "\<forall>x\<in>set a. isspace x" by metis
    then have "split_ws (a @ c # b) = split_ws (c # b)" by (rule split_ws_leading)
    with all "1.prems" show ?thesis by (simp add: split_ws_all_space)
  next
    case False
    define w where "w = takeWhile (\<lambda>c. \<not> isspace c) a'"
    define r where "r = dropWhile (\<lambda>c. \<not> isspace c) a'"
    have a'': "a' = w @ r" by (simp add: w_def r_def)
    from False have "\<not> isspace (hd a')" unfolding a'_def by (metis hd_dropWhile)
    with False have wne: "w \<noteq> []" unfolding w_def by (cases a') simp_all
    have wns: "\<forall>c\<in>set w. \<not> isspace c" unfolding w_def by (auto dest: set_takeWhileD)
    have rsp: "r = [] \<or> isspace (hd r)" unfolding r_def using hd_dropWhile [of "\<lambda>c. \<not> isspace c" a'] by auto
    have ih: "split_ws (r @ c # b) = split_ws r @ split_ws b"
      using "1.IH" [OF a'_def False] "1.prems" by (simp add: r_def)
    have rc: "r @ c # b = [] \<or> isspace (hd (r @ c # b))"
      using rsp "1.prems" by (cases r) simp_all
    have "split_ws (a @ c # b) = split_ws (takeWhile isspace a @ w @ r @ c # b)"
      using a a'' by (metis append.assoc)
    also have "\<dots> = split_ws (w @ r @ c # b)" using lead by (rule split_ws_leading)
    also have "\<dots> = w # split_ws (r @ c # b)" using wne wns rc by (rule split_ws_word_then)
    also have "\<dots> = (w # split_ws r) @ split_ws b" using ih by simp
    also have "w # split_ws r = split_ws (w @ r)" using wne wns rsp by (rule split_ws_word_then [symmetric])
    also have "\<dots> = split_ws (takeWhile isspace a @ w @ r)" using lead by (rule split_ws_leading [symmetric])
    also have "takeWhile isspace a @ w @ r = a" using a a'' by simp
    finally show ?thesis .
  qed
qed

lemma split_ws_trailing: "\<forall>c\<in>set sp. isspace c \<Longrightarrow> split_ws (t @ sp) = split_ws t"
proof (cases sp)
  case Nil
  then show ?thesis by simp
next
  case (Cons c sp')
  assume "\<forall>c\<in>set sp. isspace c"
  with Cons have "isspace c" "\<forall>c\<in>set sp'. isspace c" by simp_all
  then show ?thesis by (simp add: Cons split_ws_append_space split_ws_all_space)
qed

lemma strip_decomp:
  "\<exists>a b. s = a @ strip s @ b \<and> (\<forall>c\<in>set a. isspace c) \<and> (\<forall>c\<in>set b. isspace c)"
proof -
  define d where "d = dropWhile isspace s"
  have 1: "s = takeWhile isspace s @ d" by (simp add: d_def)
  have "rev (rev d) = rev (takeWhile isspace (rev d) @ dropWhile isspace (rev d))"
    by (simp only: takeWhile_dropWhile_id)
  then have "d = rev (dropWhile isspace (rev d)) @ rev (takeWhile isspace (rev d))"
    by (simp only: rev_rev_ident rev_append)
  then have 2: "d = strip s @ rev (takeWhile isspace (rev d))"
    by (simp only: strip_def d_def)
  have "s = takeWhile isspace s @ strip s @ rev (takeWhile isspace (rev d))"
    using 1 2 by simp
  moreover have "\<forall>c\<in>set (takeWhile isspace s). isspace c" by (auto dest: set_takeWhileD)
  moreover have "\<forall>c\<in>set (rev (takeWhile isspace (rev d))). isspace c" by (auto dest: set_takeWhileD)
  ultimately show ?thesis by blast
qed

lemma split_ws_strip: "split_ws (strip s) = split_ws s"
proof -
  from strip_decomp [of s] obtain a b where
    s: "s = a @ strip s @ b" and a: "\<forall>c\<in>set a. isspace c" and b: "\<forall>c\<in>set b. isspace c" by blast
  have "split_ws s = split_ws (a @ strip s @ b)" using s by simp
  also have "\<dots> = split_ws (strip s @ b)" using a by (rule split_ws_leading)
  also have "\<dots> = split_ws (strip s)" using b by (rule split_ws_trailing)
  finally show ?thesis by simp
qed

lemma split_ws_blank: "nows s = [] \<Longrightarrow> split_ws s = []"
proof -
  assume "nows s = []"
  then have "\<forall>c\<in>set s. isspace c" by (auto simp: nows_def filter_empty_conv)
  then show ?thesis by (rule split_ws_all_space)
qed

lemma split_ws_split_nn: "concat (map split_ws (split_nn cur s)) = split_ws (cur @ s)"
proof (induction cur s rule: split_nn.induct)
  case (1 cur)
  show ?case by simp
next
  case (2 cur a)
  show ?case by simp
next
  case (3 cur a b cs)
  show ?case
  proof (cases "a = 10 \<and> b = 10")
    case True
    have "split_ws (cur @ 10 # 10 # cs) = split_ws cur @ split_ws (10 # cs)"
      by (rule split_ws_append_space) simp
    with True "3.IH"(1) show ?thesis by simp
  next
    case False
    with "3.IH"(2) show ?thesis by auto
  qed
qed

lemma split_ws_strip_filter:
  "concat (map split_ws (map strip (filter (\<lambda>p. strip p \<noteq> []) xs))) = concat (map split_ws xs)"
  by (induction xs) (simp_all add: split_ws_strip strip_eq_Nil_iff split_ws_blank)

lemma split_ws_paragraphs_of: "concat (map split_ws (paragraphs_of T)) = split_ws T"
  by (simp only: paragraphs_of_def split_ws_strip_filter split_ws_split_nn append_Nil)

lemma sentence_end_not_space: "is_sentence_end c \<Longrightarrow> \<not> isspace c"
  by (auto simp: is_sentence_end_def isspace_def)

lemma filter_blank_nows:
  "filter (\<lambda>s. strip s \<noteq> []) xs = [] \<Longrightarrow> nows (concat xs) = []"
  by (induction xs) (auto simp: strip_eq_Nil_iff split: if_splits)

lemma re_split_single:
  "filter (\<lambda>s. strip s \<noteq> []) (re_split_sentences cur t) = [q] \<Longrightarrow>
   split_ws q = split_ws (cur @ t)"
proof (induction cur t rule: re_split_sentences.induct)
  case (1 cur)
  then show ?case by (simp split: if_splits)
next
  case (2 cur c cs)
  show ?case
  proof (cases "is_sentence_end c")
    case True
    then have "nows (cur @ [c]) \<noteq> []" by (simp add: sentence_end_not_space)
    then have nb: "strip (cur @ [c]) \<noteq> []" by (simp add: strip_eq_Nil_iff)
    with True "2.prems" have q: "q = cur @ [c]"
      and rest: "filter (\<lambda>s. strip s \<noteq> []) (re_split_sentences [] (dropWhile isspace cs)) = []"
      by simp_all
    from filter_blank_nows [OF rest] have "nows cs = []"
      by (simp add: nows_re_split_sentences nows_dropWhile)
    then have "\<forall>x\<in>set cs. isspace x" by (auto simp: nows_def filter_empty_conv)
    from split_ws_trailing [OF this, of "cur @ [c]"] q show ?thesis by simp
  next
    case False
    with "2.IH"(2) "2.prems" show ?thesis by simp
  qed
qed

lemma sentences_of_single_words:
  assumes "sentences_of p = [s]"
  shows "split_ws s = split_ws p"
proof -
  from assms obtain q where f: "filter (\<lambda>s. strip s \<noteq> []) (re_split_sentences [] p) = [q]"
    and s: "s = strip q"
    by (auto simp: sentences_of_def map_eq_Cons_conv)
  from re_split_single [OF f] s show ?thesis by (simp add: split_ws_strip)
qed

subsection \<open>The non-empty pieces of force\_substring\_chunks\<close>

lemma fsc_loop_count1:
  "fsc_loop N ws res ct ctext = (res', ctext') \<Longrightarrow>
   \<forall>w\<in>set ctext \<union> set ws. w \<noteq> [] \<Longrightarrow>
   count_nonempty res + (if ctext \<noteq> [] \<or> ws \<noteq> [] then 1 else 0)
     \<le> count_nonempty (if ctext' \<noteq> [] then res' @ [join_sp ctext'] else res')"
proof (induction N ws res ct ctext rule: fsc_loop.induct)
  case (1 max_size res ct ctext)
  then show ?case using join_sp_nonempty [of ctext] by (cases ctext) auto
next
  case (2 max_size w ws res ct ctext)
  show ?case
  proof (cases "int (ct + length w) > max_size")
    case True
    with "2.prems"(1) have l: "fsc_loop max_size ws (res @ [join_sp ctext]) (length w) [w] = (res', ctext')"
      by simp
    from "2.IH"(1) [OF True l] "2.prems"(2) show ?thesis by simp
  next
    case False
    with "2.prems"(1) have l: "fsc_loop max_size ws res (ct + length w) (ctext @ [w]) = (res', ctext')"
      by simp
    from "2.IH"(2) [OF False l] "2.prems"(2) show ?thesis by simp
  qed
qed

lemma fsc_loop_count2:
  "fsc_loop N ws res ct ctext = (res', ctext') \<Longrightarrow>
   ct = length (concat ctext) \<Longrightarrow>
   \<forall>w\<in>set ctext \<union> set ws. w \<noteq> [] \<Longrightarrow>
   N < int (ct + length (concat ws)) \<Longrightarrow>
   (ctext \<noteq> [] \<and> ws \<noteq> []) \<or> (ctext = [] \<and> 2 \<le> length ws) \<Longrightarrow>
   count_nonempty res + 2
     \<le> count_nonempty (if ctext' \<noteq> [] then res' @ [join_sp ctext'] else res')"
proof (induction N ws res ct ctext rule: fsc_loop.induct)
  case (1 max_size res ct ctext)
  then show ?case by simp
next
  case (2 max_size w ws res ct ctext)
  show ?case
  proof (cases "int (ct + length w) > max_size")
    case True
    with "2.prems"(1) have l: "fsc_loop max_size ws (res @ [join_sp ctext]) (length w) [w] = (res', ctext')"
      by simp
    show ?thesis
    proof (cases "ctext = []")
      case False
      with "2.prems"(3) have "join_sp ctext \<noteq> []"
        using join_sp_nonempty [of ctext] by (cases ctext) auto
      with fsc_loop_count1 [OF l] "2.prems"(3) show ?thesis by simp
    next
      case e: True
      with "2.prems"(5) have ws: "ws \<noteq> []" by (cases ws) auto
      from e "2.prems"(2) True have big: "max_size < int (length w + length (concat ws))" by simp
      have "count_nonempty (res @ [join_sp ctext]) + 2
         \<le> count_nonempty (if ctext' \<noteq> [] then res' @ [join_sp ctext'] else res')"
      proof (rule "2.IH"(1) [OF True l])
        show "length w = length (concat [w])" by simp
        show "\<forall>w\<in>set [w] \<union> set ws. w \<noteq> []" using "2.prems"(3) by simp
        show "max_size < int (length w + length (concat ws))" by (rule big)
        show "[w] \<noteq> [] \<and> ws \<noteq> [] \<or> [w] = [] \<and> 2 \<le> length ws" using ws by simp
      qed
      then show ?thesis by simp
    qed
  next
    case False
    with "2.prems"(1) have l: "fsc_loop max_size ws res (ct + length w) (ctext @ [w]) = (res', ctext')"
      by simp
    from False "2.prems"(4) have ws: "ws \<noteq> []" by (cases ws) auto
    show ?thesis
    proof (rule "2.IH"(2) [OF False l])
      show "ct + length w = length (concat (ctext @ [w]))" using "2.prems"(2) by simp
      show "\<forall>w\<in>set (ctext @ [w]) \<union> set ws. w \<noteq> []" using "2.prems"(3) by simp
      show "max_size < int (ct + length w + length (concat ws))" using "2.prems"(4) by (simp add: add.assoc)
      show "ctext @ [w] \<noteq> [] \<and> ws \<noteq> [] \<or> ctext @ [w] = [] \<and> 2 \<le> length ws" using ws by simp
    qed
  qed
qed

lemma force_count_ge1:
  assumes "nows s \<noteq> []"
  shows "1 \<le> count_nonempty (force_substring_chunks s N)"
proof -
  from assms have ws: "split_ws s \<noteq> []" using concat_split_ws [of s] by auto
  obtain res ctext where l: "fsc_loop N (split_ws s) [] 0 [] = (res, ctext)"
    by (cases "fsc_loop N (split_ws s) [] 0 []")
  have "\<forall>w\<in>set [] \<union> set (split_ws s). w \<noteq> []" using split_ws_words [of _ s] by auto
  from fsc_loop_count1 [OF l this] ws show ?thesis
    by (simp add: force_substring_chunks_def l)
qed

lemma force_count_ge2:
  assumes "N < int (length (nows s))" "2 \<le> length (split_ws s)"
  shows "2 \<le> count_nonempty (force_substring_chunks s N)"
proof -
  obtain res ctext where l: "fsc_loop N (split_ws s) [] 0 [] = (res, ctext)"
    by (cases "fsc_loop N (split_ws s) [] 0 []")
  have w: "\<forall>w\<in>set [] \<union> set (split_ws s). w \<noteq> []" using split_ws_words [of _ s] by auto
  from assms(1) have "N < int (0 + length (concat (split_ws s)))" by (simp add: concat_split_ws)
  from fsc_loop_count2 [OF l _ w this] assms(2) show ?thesis
    by (simp add: force_substring_chunks_def l)
qed

subsection \<open>Trimmed strings\<close>

lemma trimmed_nows: "trimmed s \<Longrightarrow> nows s \<noteq> []"
  by (cases s) (auto simp: trimmed_def)

lemma trimmed_ne: "trimmed s \<Longrightarrow> s \<noteq> []"
  by (simp add: trimmed_def)

lemma strip_trimmed: "trimmed s \<Longrightarrow> strip s = s"
  by (simp add: trimmed_def strip_id)

lemma trimmed_strip: "strip s \<noteq> [] \<Longrightarrow> trimmed (strip s)"
  using strip_ends [of s] by (simp add: trimmed_def)

lemma trimmed_between: "trimmed a \<Longrightarrow> trimmed b \<Longrightarrow> trimmed (a @ m @ b)"
  by (simp add: trimmed_def)

lemma sentences_of_trimmed: "s \<in> set (sentences_of p) \<Longrightarrow> trimmed s"
  by (auto simp: sentences_of_def trimmed_strip)

lemma paragraphs_of_trimmed: "p \<in> set (paragraphs_of T) \<Longrightarrow> trimmed p"
  by (auto simp: paragraphs_of_def trimmed_strip)

lemma strip_nows_cases: "strip z = [] \<or> nows (strip z) \<noteq> []"
  by (simp add: strip_eq_Nil_iff)

subsection \<open>The sentence loop\<close>

lemma blp_loop_over:
  "SUB_CHUNK_SIZE < count_tokens enc (strip (cur @ (if cur \<noteq> [] then [32] else []) @ s)) \<Longrightarrow>
   blp_loop enc (s # rest) chunks cur =
     blp_loop enc rest (if cur \<noteq> [] then chunks @ [cur] else chunks)
       (if OVERLAP_TOKENS > 0 \<and> (if cur \<noteq> [] then chunks @ [cur] else chunks) \<noteq> []
        then strip (overlap_loop (rev (split_ws (last (if cur \<noteq> [] then chunks @ [cur] else chunks)))) [] 0 @ s)
        else strip (cur @ (if cur \<noteq> [] then [32] else []) @ s))"
  by (simp only: blp_loop.simps Let_def if_True)

lemma blp_loop_fit:
  "\<not> SUB_CHUNK_SIZE < count_tokens enc (strip (cur @ (if cur \<noteq> [] then [32] else []) @ s)) \<Longrightarrow>
   blp_loop enc (s # rest) chunks cur =
     blp_loop enc rest chunks (strip (cur @ (if cur \<noteq> [] then [32] else []) @ s))"
  by (simp only: blp_loop.simps Let_def if_False)

lemma blp_loop_step:
  assumes "nows s \<noteq> []"
  shows "\<exists>chunks1 cur1. blp_loop enc (s # rest) chunks cur = blp_loop enc rest chunks1 cur1 \<and>
     cur1 \<noteq> [] \<and> nows cur1 \<noteq> [] \<and>
     (chunks1 = chunks \<or> (cur \<noteq> [] \<and> chunks1 = chunks @ [cur]))"
proof (cases "SUB_CHUNK_SIZE < count_tokens enc (strip (cur @ (if cur \<noteq> [] then [32] else []) @ s))")
  case True
  define chunks1 where "chunks1 = (if cur \<noteq> [] then chunks @ [cur] else chunks)"
  define cur1 where "cur1 = (if OVERLAP_TOKENS > 0 \<and> chunks1 \<noteq> []
        then strip (overlap_loop (rev (split_ws (last chunks1))) [] 0 @ s)
        else strip (cur @ (if cur \<noteq> [] then [32] else []) @ s))"
  have e: "blp_loop enc (s # rest) chunks cur = blp_loop enc rest chunks1 cur1"
    unfolding chunks1_def cur1_def by (rule blp_loop_over [OF True])
  from assms have n: "nows cur1 \<noteq> []" by (simp add: cur1_def)
  then have "cur1 \<noteq> []" by auto
  with e n show ?thesis by (auto simp: chunks1_def)
next
  case False
  define cur1 where "cur1 = strip (cur @ (if cur \<noteq> [] then [32] else []) @ s)"
  have e: "blp_loop enc (s # rest) chunks cur = blp_loop enc rest chunks cur1"
    unfolding cur1_def by (rule blp_loop_fit [OF False])
  from assms have n: "nows cur1 \<noteq> []" by (simp add: cur1_def)
  then have "cur1 \<noteq> []" by auto
  with e n show ?thesis by auto
qed

lemma blp_loop_count:
  "blp_loop enc ss chunks cur = (chunks', cur') \<Longrightarrow> \<forall>s\<in>set ss. nows s \<noteq> [] \<Longrightarrow>
   length chunks + (if cur \<noteq> [] \<or> ss \<noteq> [] then 1 else 0)
     \<le> length (if cur' \<noteq> [] then chunks' @ [cur'] else chunks')"
proof (induction ss arbitrary: chunks cur)
  case Nil
  then show ?case by auto
next
  case (Cons s ss)
  from Cons.prems(2) have s: "nows s \<noteq> []" and rest: "\<forall>s\<in>set ss. nows s \<noteq> []" by simp_all
  from blp_loop_step [OF s, of enc ss chunks cur] obtain chunks1 cur1 where
    e: "blp_loop enc (s # ss) chunks cur = blp_loop enc ss chunks1 cur1" and c: "cur1 \<noteq> []"
    and ch: "chunks1 = chunks \<or> (cur \<noteq> [] \<and> chunks1 = chunks @ [cur])" by blast
  from e Cons.prems(1) have l: "blp_loop enc ss chunks1 cur1 = (chunks', cur')" by simp
  from Cons.IH [OF l rest] c ch show ?case by auto
qed

lemma blp_loop_nows:
  "blp_loop enc ss chunks cur = (chunks', cur') \<Longrightarrow> \<forall>s\<in>set ss. nows s \<noteq> [] \<Longrightarrow>
   cur = [] \<or> nows cur \<noteq> [] \<Longrightarrow> \<forall>c\<in>set chunks. nows c \<noteq> [] \<Longrightarrow>
   (cur' = [] \<or> nows cur' \<noteq> []) \<and> (\<forall>c\<in>set chunks'. nows c \<noteq> [])"
proof (induction ss arbitrary: chunks cur)
  case Nil
  then show ?case by auto
next
  case (Cons s ss)
  from Cons.prems(2) have s: "nows s \<noteq> []" and rest: "\<forall>s\<in>set ss. nows s \<noteq> []" by simp_all
  from blp_loop_step [OF s, of enc ss chunks cur] obtain chunks1 cur1 where
    e: "blp_loop enc (s # ss) chunks cur = blp_loop enc ss chunks1 cur1" and c: "nows cur1 \<noteq> []"
    and ch: "chunks1 = chunks \<or> (cur \<noteq> [] \<and> chunks1 = chunks @ [cur])" by blast
  from e Cons.prems(1) have l: "blp_loop enc ss chunks1 cur1 = (chunks', cur')" by simp
  from ch Cons.prems(3,4) have "\<forall>c\<in>set chunks1. nows c \<noteq> []" by auto
  from Cons.IH [OF l rest _ this] c show ?case by simp
qed

lemma sentences_of_nows: "s \<in> set (sentences_of p) \<Longrightarrow> nows s \<noteq> []"
  by (auto dest: sentences_of_trimmed trimmed_nows)

lemma break_large_paragraph_nows:
  assumes "sc \<in> set (break_large_paragraph enc p)"
  shows "nows sc \<noteq> []"
proof -
  obtain chunks cur where l: "blp_loop enc (sentences_of p) [] [] = (chunks, cur)"
    by (cases "blp_loop enc (sentences_of p) [] []")
  from blp_loop_nows [OF l] sentences_of_nows [of _ p]
  have "cur = [] \<or> nows cur \<noteq> []" "\<forall>c\<in>set chunks. nows c \<noteq> []" by auto
  with assms show ?thesis by (auto simp: break_large_paragraph_def l split: if_splits)
qed

lemma break_large_paragraph_length:
  assumes "nows p \<noteq> []"
  shows "1 \<le> length (break_large_paragraph enc p)"
proof -
  from assms have ne: "sentences_of p \<noteq> []" using nows_sentences_of [of p] by auto
  obtain chunks cur where l: "blp_loop enc (sentences_of p) [] [] = (chunks, cur)"
    by (cases "blp_loop enc (sentences_of p) [] []")
  from blp_loop_count [OF l] sentences_of_nows [of _ p] ne show ?thesis
    by (auto simp: break_large_paragraph_def l)
qed

lemma blp_loop_first:
  assumes "trimmed s"
  shows "blp_loop enc (s # rest) [] [] = blp_loop enc rest [] s"
proof (cases "SUB_CHUNK_SIZE < count_tokens enc (strip ([] @ (if [] \<noteq> ([]::ustring) then [32] else []) @ s))")
  case True
  from blp_loop_over [OF True, of rest "[]"] assms show ?thesis by (simp add: strip_trimmed)
next
  case False
  from blp_loop_fit [OF False, of rest "[]"] assms show ?thesis by (simp add: strip_trimmed)
qed

lemma blp_loop_flush_or_join:
  "blp_loop None ss chunks Y = (chunks', cur') \<Longrightarrow> trimmed Y \<Longrightarrow> \<forall>s\<in>set ss. trimmed s \<Longrightarrow>
   ss \<noteq> [] \<Longrightarrow>
   length chunks + 2 \<le> length (if cur' \<noteq> [] then chunks' @ [cur'] else chunks') \<or>
   (chunks' = chunks \<and> cur' = Y @ 32 # join_sp ss \<and> length cur' \<le> SUB_CHUNK_SIZE)"
proof (induction ss arbitrary: Y)
  case Nil
  then show ?case by simp
next
  case (Cons s ss)
  from Cons.prems have Y: "trimmed Y" and s: "trimmed s" and rest: "\<forall>s\<in>set ss. trimmed s" by simp_all
  have cand: "strip (Y @ (if Y \<noteq> [] then [32] else []) @ s) = Y @ 32 # s"
    using trimmed_between [OF Y s, of "[32]"] Y by (simp add: strip_trimmed trimmed_ne)
  show ?case
  proof (cases "SUB_CHUNK_SIZE < count_tokens None (Y @ 32 # s)")
    case True
    have "SUB_CHUNK_SIZE < count_tokens None (strip (Y @ (if Y \<noteq> [] then [32] else []) @ s))"
      unfolding cand using True .
    from blp_loop_over [OF this, of ss chunks] Y obtain cur1 where
      e: "blp_loop None (s # ss) chunks Y = blp_loop None ss (chunks @ [Y]) cur1"
      and c1: "cur1 = strip (overlap_loop (rev (split_ws Y)) [] 0 @ s)"
      by (simp add: trimmed_ne OVERLAP_TOKENS_def)
    from s have "nows cur1 \<noteq> []" by (simp add: c1 trimmed_nows)
    then have "cur1 \<noteq> []" by auto
    from e Cons.prems(1) have l: "blp_loop None ss (chunks @ [Y]) cur1 = (chunks', cur')" by simp
    from rest have rest': "\<forall>s\<in>set ss. nows s \<noteq> []" by (auto dest: trimmed_nows)
    from blp_loop_count [OF l rest'] \<open>cur1 \<noteq> []\<close> show ?thesis
      by simp
  next
    case False
    have "\<not> SUB_CHUNK_SIZE < count_tokens None (strip (Y @ (if Y \<noteq> [] then [32] else []) @ s))"
      unfolding cand using False .
    from blp_loop_fit [OF this, of ss chunks]
    have e: "blp_loop None (s # ss) chunks Y = blp_loop None ss chunks (Y @ 32 # s)"
      by (simp only: cand)
    with Cons.prems(1) have l: "blp_loop None ss chunks (Y @ 32 # s) = (chunks', cur')" by simp
    have Y': "trimmed (Y @ 32 # s)" using trimmed_between [OF Y s, of "[32]"] by simp
    show ?thesis
    proof (cases "ss = []")
      case True
      with l False show ?thesis by (simp add: count_tokens_def)
    next
      case ne: False
      from Cons.IH [OF l Y' rest ne] ne show ?thesis
        by (cases ss) auto
    qed
  qed
qed

lemma break_large_paragraph_two:
  assumes "2 \<le> length (sentences_of p)" "SUB_CHUNK_SIZE < length (join_sp (sentences_of p))"
  shows "2 \<le> length (break_large_paragraph None p)"
proof -
  from assms(1) obtain s1 s2 rest where ss: "sentences_of p = s1 # s2 # rest"
    by (cases "sentences_of p" rule: join_sp.cases) auto
  have tr: "trimmed s1" "\<forall>s\<in>set (s2 # rest). trimmed s"
    using sentences_of_trimmed [of _ p] by (auto simp: ss)
  obtain chunks cur where l: "blp_loop None (s2 # rest) [] s1 = (chunks, cur)"
    by (cases "blp_loop None (s2 # rest) [] s1")
  have b: "break_large_paragraph None p = (if cur \<noteq> [] then chunks @ [cur] else chunks)"
    by (simp only: break_large_paragraph_def ss blp_loop_first [OF tr(1)] l prod.case)
  from blp_loop_flush_or_join [OF l tr] assms(2) show ?thesis
    unfolding b ss by auto
qed

lemma break_large_paragraph_single:
  assumes "break_large_paragraph None p = [sc]" "SUB_CHUNK_SIZE < length sc"
  shows "sentences_of p = [sc]"
proof (cases "sentences_of p" rule: join_sp.cases)
  case 1
  with assms(1) show ?thesis by (simp add: break_large_paragraph_def)
next
  case (2 s)
  then have tr: "trimmed s" using sentences_of_trimmed [of s p] by simp
  have e: "blp_loop None [s] [] [] = ([], s)"
    using blp_loop_first [OF tr, of None "[]"] by (simp only: blp_loop.simps(1))
  have "break_large_paragraph None p = [s]"
    using trimmed_ne [OF tr] by (simp add: break_large_paragraph_def 2 e del: blp_loop.simps)
  with assms(1) 2 show ?thesis by simp
next
  case (3 s1 s2 rest)
  have tr: "trimmed s1" "\<forall>s\<in>set (s2 # rest). trimmed s"
    using sentences_of_trimmed [of _ p] by (auto simp: 3)
  obtain chunks cur where l: "blp_loop None (s2 # rest) [] s1 = (chunks, cur)"
    by (cases "blp_loop None (s2 # rest) [] s1")
  have b: "break_large_paragraph None p = (if cur \<noteq> [] then chunks @ [cur] else chunks)"
    by (simp only: break_large_paragraph_def 3 blp_loop_first [OF tr(1)] l prod.case)
  from blp_loop_flush_or_join [OF l tr] assms show ?thesis
    unfolding b by (auto split: if_splits)
qed

subsection \<open>Emitting sub-chunks\<close>

lemma emit_subchunks_count:
  "\<forall>sc\<in>set scs. nows sc \<noteq> [] \<Longrightarrow>
   count_nonempty segs + length scs \<le> count_nonempty (emit_subchunks enc scs segs)"
proof (induction scs arbitrary: segs)
  case Nil
  show ?case by simp
next
  case (Cons sc scs)
  from Cons.prems have sc: "nows sc \<noteq> []" and rest: "\<forall>sc\<in>set scs. nows sc \<noteq> []" by simp_all
  from sc have ne: "sc \<noteq> []" by auto
  show ?case
  proof (cases "count_tokens enc sc \<le> MAX_TOKENS")
    case True
    from Cons.IH [OF rest, of "segs @ [sc]"] True ne show ?thesis by simp
  next
    case False
    from Cons.IH [OF rest, of "segs @ force_substring_chunks sc (int MAX_TOKENS)"]
      force_count_ge1 [OF sc, of "int MAX_TOKENS"] False show ?thesis by simp
  qed
qed

subsection \<open>The paragraph loop\<close>

lemma length_join_nn:
  "ps \<noteq> [] \<Longrightarrow> length (join_nn ps) + 2 = length (concat ps) + 2 * length ps"
  by (induction ps rule: join_nn.induct) simp_all

lemma length_concat_nows: "length (concat (map nows ps)) \<le> length (concat ps)"
  by (induction ps) (simp_all add: add_mono length_nows_le)

lemma seg_loop_count:
  "seg_loop enc ps segs cur = (segs', cur') \<Longrightarrow>
   cur = [] \<or> nows cur \<noteq> [] \<Longrightarrow> \<forall>p\<in>set ps. nows p \<noteq> [] \<Longrightarrow>
   (cur' = [] \<or> nows cur' \<noteq> []) \<and>
   count_nonempty segs + (if cur \<noteq> [] \<or> ps \<noteq> [] then 1 else 0)
     \<le> count_nonempty segs' + (if cur' \<noteq> [] then 1 else 0)"
proof (induction ps arbitrary: segs cur)
  case Nil
  then show ?case by simp
next
  case (Cons para ps)
  from Cons.prems(3) have rest: "\<forall>p\<in>set ps. nows p \<noteq> []" and para: "nows para \<noteq> []" by simp_all
  from para have pne: "para \<noteq> []" by auto
  show ?case
  proof (cases "count_tokens enc para > MAX_TOKENS")
    case True
    define segs1 where "segs1 = (if cur \<noteq> [] then segs @ [strip cur] else segs)"
    from True Cons.prems(1)
    have l: "seg_loop enc ps (emit_subchunks enc (break_large_paragraph enc para) segs1) [] = (segs', cur')"
      by (simp add: Let_def segs1_def)
    have "count_nonempty segs \<le> count_nonempty segs1" by (simp add: segs1_def)
    moreover have "count_nonempty segs1 + length (break_large_paragraph enc para)
        \<le> count_nonempty (emit_subchunks enc (break_large_paragraph enc para) segs1)"
      by (rule emit_subchunks_count) (auto dest: break_large_paragraph_nows)
    moreover note break_large_paragraph_length [OF para, of enc]
    ultimately have "count_nonempty segs + 1
        \<le> count_nonempty (emit_subchunks enc (break_large_paragraph enc para) segs1)" by simp
    with Cons.IH [OF l _ rest] show ?thesis by auto
  next
    case False
    show ?thesis
    proof (cases "count_tokens enc (strip (cur @ para)) > MAX_TOKENS")
      case True
      with False Cons.prems(1)
      have l: "seg_loop enc ps (if cur \<noteq> [] then segs @ [strip cur] else segs) (para @ [10, 10]) = (segs', cur')"
        by (simp add: Let_def)
      from para have "para @ [10, 10] = [] \<or> nows (para @ [10, 10]) \<noteq> []" by simp
      from Cons.IH [OF l this rest] pne show ?thesis by (auto split: if_splits)
    next
      case c: False
      with False Cons.prems(1)
      have l: "seg_loop enc ps segs (cur @ [10, 10] @ para) = (segs', cur')"
        by (simp add: Let_def)
      from para have "cur @ [10, 10] @ para = [] \<or> nows (cur @ [10, 10] @ para) \<noteq> []" by simp
      from Cons.IH [OF l this rest] pne show ?thesis by (auto split: if_splits)
    qed
  qed
qed

lemma seg_loop_flushes:
  "seg_loop None ps segs (10 # 10 # X) = (segs', cur') \<Longrightarrow> trimmed X \<Longrightarrow>
   \<forall>p\<in>set ps. trimmed p \<Longrightarrow> ps \<noteq> [] \<Longrightarrow>
   MAX_TOKENS < length X + length (join_nn ps) \<Longrightarrow>
   count_nonempty segs + 2 \<le> count_nonempty segs' + (if cur' \<noteq> [] then 1 else 0)"
proof (induction ps arbitrary: X)
  case Nil
  then show ?case by simp
next
  case (Cons p ps)
  from Cons.prems have X: "trimmed X" and p: "trimmed p" and rest: "\<forall>p\<in>set ps. trimmed p" by simp_all
  from rest have rest': "\<forall>p\<in>set ps. nows p \<noteq> []" by (auto dest: trimmed_nows)
  have sX: "strip (10 # 10 # X) = X" using X by (simp add: strip_lf_lf strip_trimmed)
  have Xne: "X \<noteq> []" using X by (rule trimmed_ne)
  have pne: "p \<noteq> []" using p by (rule trimmed_ne)
  have cand: "strip (10 # 10 # X @ p) = X @ p"
    using trimmed_between [OF X p, of "[]"] by (simp add: strip_lf_lf strip_trimmed)
  show ?case
  proof (cases "count_tokens None p > MAX_TOKENS")
    case True
    with Cons.prems(1)
    have l: "seg_loop None ps (emit_subchunks None (break_large_paragraph None p) (segs @ [X])) [] = (segs', cur')"
      by (simp add: Let_def sX)
    have "count_nonempty (segs @ [X]) + length (break_large_paragraph None p)
        \<le> count_nonempty (emit_subchunks None (break_large_paragraph None p) (segs @ [X]))"
      by (rule emit_subchunks_count) (auto dest: break_large_paragraph_nows)
    moreover note break_large_paragraph_length [OF trimmed_nows [OF p], of None]
    ultimately have "count_nonempty segs + 2
        \<le> count_nonempty (emit_subchunks None (break_large_paragraph None p) (segs @ [X]))"
      using Xne by simp
    with seg_loop_count [OF l _ rest'] show ?thesis by auto
  next
    case False
    show ?thesis
    proof (cases "count_tokens None (X @ p) > MAX_TOKENS")
      case True
      with False Cons.prems(1)
      have l: "seg_loop None ps (segs @ [X]) (p @ [10, 10]) = (segs', cur')"
        by (simp add: Let_def cand sX)
      from p have "p @ [10, 10] = [] \<or> nows (p @ [10, 10]) \<noteq> []" by (simp add: trimmed_nows)
      from seg_loop_count [OF l this rest'] Xne pne show ?thesis by simp
    next
      case c: False
      with False Cons.prems(1)
      have l: "seg_loop None ps segs (10 # 10 # (X @ 10 # 10 # p)) = (segs', cur')"
        by (simp add: Let_def cand)
      have X': "trimmed (X @ 10 # 10 # p)" using trimmed_between [OF X p, of "[10, 10]"] by simp
      show ?thesis
      proof (cases "ps = []")
        case True
        with Cons.prems(5) c show ?thesis by (simp add: count_tokens_def)
      next
        case ne: False
        then obtain q qs where ps: "ps = q # qs" by (cases ps) auto
        from Cons.prems(5) have "MAX_TOKENS < length (X @ 10 # 10 # p) + length (join_nn ps)"
          by (simp add: ps)
        from Cons.IH [OF l X' rest ne this] show ?thesis .
      qed
    qed
  qed
qed

lemma seg_loop_packs:
  assumes l: "seg_loop None ps [] [] = (segs, cur)"
    and tr: "\<forall>p\<in>set ps. trimmed p"
    and two: "2 \<le> length ps" and big: "MAX_TOKENS + 2 < length (join_nn ps)"
  shows "2 \<le> count_nonempty segs + (if cur \<noteq> [] then 1 else 0)"
proof -
  from two obtain p1 p2 rest where ps: "ps = p1 # p2 # rest"
    by (cases ps rule: join_nn.cases) auto
  from tr have p1: "trimmed p1" and rest: "\<forall>p\<in>set (p2 # rest). trimmed p" by (simp_all add: ps)
  from rest have rest': "\<forall>p\<in>set (p2 # rest). nows p \<noteq> []" by (auto dest: trimmed_nows)
  show ?thesis
  proof (cases "count_tokens None p1 > MAX_TOKENS")
    case True
    with l have l': "seg_loop None (p2 # rest) (emit_subchunks None (break_large_paragraph None p1) []) [] = (segs, cur)"
      by (simp add: ps Let_def del: seg_loop.simps(2)) (simp add: Let_def)
    have "count_nonempty [] + length (break_large_paragraph None p1)
        \<le> count_nonempty (emit_subchunks None (break_large_paragraph None p1) [])"
      by (rule emit_subchunks_count) (auto dest: break_large_paragraph_nows)
    moreover note break_large_paragraph_length [OF trimmed_nows [OF p1], of None]
    ultimately have "1 \<le> count_nonempty (emit_subchunks None (break_large_paragraph None p1) [])"
      by simp
    with seg_loop_count [OF l' _ rest'] show ?thesis by auto
  next
    case False
    have "seg_loop None (p1 # p2 # rest) [] [] = seg_loop None (p2 # rest) [] (10 # 10 # p1)"
      using False by (subst seg_loop.simps(2)) (simp add: strip_trimmed [OF p1] Let_def del: seg_loop.simps)
    with l have l': "seg_loop None (p2 # rest) [] (10 # 10 # p1) = (segs, cur)" by (simp add: ps)
    from big have "MAX_TOKENS < length p1 + length (join_nn (p2 # rest))" by (simp add: ps)
    from seg_loop_flushes [OF l' p1 rest _ this] show ?thesis by simp
  qed
qed

lemma segment_chapter_count:
  assumes "MAX_TOKENS < count_tokens None T" "seg_loop None (paragraphs_of T) [] [] = (segs, cur)"
  shows "count_nonempty (segment_chapter None T) = count_nonempty segs + (if cur \<noteq> [] then 1 else 0)"
proof -
  from seg_loop_count [OF assms(2)] have "cur = [] \<or> nows cur \<noteq> []"
    by (auto dest: paragraphs_of_trimmed trimmed_nows)
  then have "cur \<noteq> [] \<Longrightarrow> strip cur \<noteq> []" by (simp add: strip_eq_Nil_iff)
  with assms show ?thesis by (cases "cur = []") (simp_all add: segment_chapter_def)
qed

lemma segment_chapter_one_paragraph:
  assumes "MAX_TOKENS < count_tokens None T" "paragraphs_of T = [p]" "MAX_TOKENS < count_tokens None p"
  shows "segment_chapter None T = emit_subchunks None (break_large_paragraph None p) []"
  using assms by (simp add: segment_chapter_def)

subsection \<open>Texts that yield at most one non-empty segment\<close>

lemma join_sp_Cons: "join_sp (w # ws) = (if ws = [] then w else w @ 32 # join_sp ws)"
  by (cases ws) simp_all

lemma join_nn_Cons: "join_nn (p # ps) = (if ps = [] then p else p @ 10 # 10 # join_nn ps)"
  by (cases ps) simp_all

lemma blp_loop_joins:
  "trimmed Y \<Longrightarrow> \<forall>s\<in>set ss. trimmed s \<Longrightarrow> length (join_sp (Y # ss)) \<le> SUB_CHUNK_SIZE \<Longrightarrow>
   blp_loop None ss chunks Y = (chunks, join_sp (Y # ss))"
proof (induction ss arbitrary: Y)
  case Nil
  then show ?case by simp
next
  case (Cons s ss)
  from Cons.prems have Y: "trimmed Y" and s: "trimmed s" and rest: "\<forall>s\<in>set ss. trimmed s" by simp_all
  have Yne: "Y \<noteq> []" using Y by (rule trimmed_ne)
  have Y': "trimmed (Y @ 32 # s)" using trimmed_between [OF Y s, of "[32]"] by simp
  have cand: "strip (Y @ (if Y \<noteq> [] then [32] else []) @ s) = Y @ 32 # s"
    using Yne strip_trimmed [OF Y'] by simp
  have j: "join_sp (Y # s # ss) = join_sp ((Y @ 32 # s) # ss)" by (simp add: join_sp_Cons)
  from Cons.prems(3) have "length (Y @ 32 # s) \<le> SUB_CHUNK_SIZE"
    by (simp add: join_sp_Cons split: if_splits)
  then have "\<not> SUB_CHUNK_SIZE < count_tokens None (strip (Y @ (if Y \<noteq> [] then [32] else []) @ s))"
    unfolding cand by (simp add: count_tokens_def)
  from blp_loop_fit [OF this, of ss chunks]
  have "blp_loop None (s # ss) chunks Y = blp_loop None ss chunks (Y @ 32 # s)"
    unfolding cand .
  also have "\<dots> = (chunks, join_sp ((Y @ 32 # s) # ss))"
    using Cons.prems(3) by (intro Cons.IH [OF Y' rest]) (simp only: j)
  finally show ?case by (simp only: j)
qed

lemma break_large_paragraph_fits:
  assumes "sentences_of p \<noteq> []" "length (join_sp (sentences_of p)) \<le> SUB_CHUNK_SIZE"
  shows "break_large_paragraph None p = [join_sp (sentences_of p)]"
proof -
  from assms(1) obtain s ss where ss: "sentences_of p = s # ss" by (cases "sentences_of p") auto
  have tr: "trimmed s" "\<forall>s\<in>set ss. trimmed s"
    using sentences_of_trimmed [of _ p] by (auto simp: ss)
  from assms(2) have "length (join_sp (s # ss)) \<le> SUB_CHUNK_SIZE" by (simp only: ss)
  from blp_loop_joins [OF tr this, of "[]"]
  have l: "blp_loop None (s # ss) [] [] = ([], join_sp (s # ss))"
    by (simp only: blp_loop_first [OF tr(1)])
  have "join_sp (s # ss) \<noteq> []" using trimmed_ne [OF tr(1)] by (simp add: join_sp_Cons)
  then show ?thesis by (simp add: break_large_paragraph_def ss l del: blp_loop.simps)
qed

lemma break_large_paragraph_one_sentence:
  assumes "sentences_of p = [s]"
  shows "break_large_paragraph None p = [s]"
proof -
  have tr: "trimmed s" using sentences_of_trimmed [of s p] by (simp add: assms)
  have l: "blp_loop None [s] [] [] = ([], s)" by (simp only: blp_loop_first [OF tr] blp_loop.simps(1))
  from trimmed_ne [OF tr] show ?thesis
    by (simp add: break_large_paragraph_def assms l del: blp_loop.simps)
qed

lemma fsc_loop_joins:
  "int (cnt + length (concat ws)) \<le> N \<Longrightarrow> fsc_loop N ws res cnt cur = (res, cur @ ws)"
  by (induction ws arbitrary: cnt cur) (simp_all add: add.assoc)

lemma force_count_le1:
  assumes "\<not> (N < int (length (nows s)) \<and> 2 \<le> length (split_ws s))"
  shows "count_nonempty (force_substring_chunks s N) \<le> 1"
proof (cases "N < int (length (nows s))")
  case False
  then have "int (0 + length (concat (split_ws s))) \<le> N" by (simp add: concat_split_ws)
  from fsc_loop_joins [OF this, of "[]" "[]"] show ?thesis
    by (simp add: force_substring_chunks_def)
next
  case True
  with assms have "length (split_ws s) < 2" by simp
  then consider "split_ws s = []" | w where "split_ws s = [w]"
    by (cases "split_ws s" rule: join_sp.cases) auto
  then show ?thesis
    by cases (simp_all add: force_substring_chunks_def)
qed

lemma seg_loop_joins:
  "trimmed X \<Longrightarrow> \<forall>p\<in>set ps. trimmed p \<Longrightarrow> length (join_nn (X # ps)) \<le> MAX_TOKENS + 2 \<Longrightarrow>
   seg_loop None ps segs (10 # 10 # X) = (segs, 10 # 10 # join_nn (X # ps))"
proof (induction ps arbitrary: X)
  case Nil
  then show ?case by simp
next
  case (Cons p ps)
  from Cons.prems have X: "trimmed X" and p: "trimmed p" and rest: "\<forall>p\<in>set ps. trimmed p" by simp_all
  have X': "trimmed (X @ 10 # 10 # p)" using trimmed_between [OF X p, of "[10, 10]"] by simp
  have cand: "strip (10 # 10 # X @ p) = X @ p"
    using trimmed_between [OF X p, of "[]"] by (simp add: strip_lf_lf strip_trimmed)
  have j: "join_nn (X # p # ps) = join_nn ((X @ 10 # 10 # p) # ps)" by (simp add: join_nn_Cons)
  from Cons.prems(3) have le: "length X + length p \<le> MAX_TOKENS"
    by (simp add: join_nn_Cons split: if_splits)
  then have "seg_loop None (p # ps) segs (10 # 10 # X) = seg_loop None ps segs (10 # 10 # (X @ 10 # 10 # p))"
    by (simp add: Let_def cand count_tokens_def)
  also have "\<dots> = (segs, 10 # 10 # join_nn ((X @ 10 # 10 # p) # ps))"
    using Cons.prems(3) by (intro Cons.IH [OF X' rest]) (simp only: j)
  finally show ?case by (simp only: j)
qed

lemma segment_chapter_one_segment:
  assumes big: "MAX_TOKENS < count_tokens None T"
    and words: "\<not> (MAX_TOKENS < length (nows T) \<and> 2 \<le> length (split_ws T))"
    and paras: "\<not> (2 \<le> length (paragraphs_of T) \<and> MAX_TOKENS + 2 < length (join_nn (paragraphs_of T)))"
    and sents: "\<not> (\<exists>p. paragraphs_of T = [p] \<and> MAX_TOKENS < count_tokens None p \<and>
            2 \<le> length (sentences_of p) \<and> SUB_CHUNK_SIZE < length (join_sp (sentences_of p)))"
  shows "count_nonempty (segment_chapter None T) \<le> 1"
proof (cases "paragraphs_of T" rule: join_nn.cases)
  case 1
  with big show ?thesis by (simp add: segment_chapter_def)
next
  case (3 p1 p2 rest)
  have tr: "trimmed p1" "\<forall>p\<in>set (p2 # rest). trimmed p"
    using paragraphs_of_trimmed [of _ T] by (auto simp: 3)
  from paras 3 have le: "length (join_nn (p1 # p2 # rest)) \<le> MAX_TOKENS + 2" by simp
  then have "length p1 \<le> MAX_TOKENS" by simp
  then have "seg_loop None (p1 # p2 # rest) [] [] = seg_loop None (p2 # rest) [] (10 # 10 # p1)"
    by (subst seg_loop.simps(2)) (simp add: strip_trimmed [OF tr(1)] Let_def count_tokens_def del: seg_loop.simps)
  also from seg_loop_joins [OF tr le]
  have "\<dots> = ([], 10 # 10 # join_nn (p1 # p2 # rest))" .
  finally have l: "seg_loop None (paragraphs_of T) [] [] = ([], 10 # 10 # join_nn (p1 # p2 # rest))"
    by (simp only: 3)
  from big show ?thesis unfolding segment_chapter_def l by simp
next
  case (2 p)
  have tr: "trimmed p" using paragraphs_of_trimmed [of p T] by (simp add: 2)
  show ?thesis
  proof (cases "MAX_TOKENS < count_tokens None p")
    case False
    then have "seg_loop None [p] [] [] = ([], 10 # 10 # p)"
      by (simp add: strip_trimmed [OF tr] Let_def)
    with big show ?thesis by (simp add: segment_chapter_def 2)
  next
    case True
    note sc = segment_chapter_one_paragraph [OF big 2 True]
    from nows_paragraphs_of [of T] 2 have np: "nows p = nows T" by simp
    from split_ws_paragraphs_of [of T] 2 have wp: "split_ws p = split_ws T" by simp
    from trimmed_nows [OF tr] nows_sentences_of [of p] have ne: "sentences_of p \<noteq> []" by auto
    show ?thesis
    proof (cases "length (join_sp (sentences_of p)) \<le> SUB_CHUNK_SIZE")
      case fit: True
      then have "count_tokens None (join_sp (sentences_of p)) \<le> MAX_TOKENS"
        by (simp add: count_tokens_def SUB_CHUNK_SIZE_def MAX_TOKENS_def)
      then show ?thesis by (simp add: sc break_large_paragraph_fits [OF ne fit])
    next
      case False
      with sents 2 True have "length (sentences_of p) < 2" by simp
      with ne obtain s where ss: "sentences_of p = [s]"
        by (cases "sentences_of p" rule: join_sp.cases) auto
      from sentences_of_single_words [OF ss] wp have ws: "split_ws s = split_ws T" by simp
      from nows_sentences_of [of p] ss np have ns: "nows s = nows T" by simp
      from words have "\<not> (int MAX_TOKENS < int (length (nows s)) \<and> 2 \<le> length (split_ws s))"
        by (simp add: ws ns)
      from force_count_le1 [OF this] show ?thesis
        by (simp add: sc break_large_paragraph_one_sentence [OF ss])
    qed
  qed
qed

subsection \<open>The property\<close>




section \<open>Chapters of a document with two headings\<close>

lemma heading_class_HUI: "heading_class d HUI"
  by (simp add: heading_class_def HUI_def)

lemma not_isspace_DI_HUI: "\<not> isspace DI" "\<not> isspace HUI"
  by (simp_all add: isspace_def DI_def HUI_def)

lemma heading_backtrack_sound:
  "heading_backtrack rest K = Some k \<Longrightarrow> 1 \<le> k \<and> k \<le> K \<and> k < length rest \<and> rest ! k = HUI"
  by (induction K) (auto split: if_splits)

lemma heading_backtrack_complete:
  "1 \<le> k \<Longrightarrow> k \<le> K \<Longrightarrow> k < length rest \<Longrightarrow> rest ! k = HUI \<Longrightarrow>
   \<exists>k'. heading_backtrack rest K = Some k'"
proof (induction K)
  case 0
  then show ?case by simp
next
  case (Suc K)
  show ?case
  proof (cases "Suc K < length rest \<and> rest ! Suc K = HUI")
    case True
    then show ?thesis by simp
  next
    case False
    with Suc.prems have "k \<le> K" by (cases "k = Suc K") auto
    from Suc.IH [OF Suc.prems(1) this Suc.prems(3,4)] False show ?thesis by auto
  qed
qed

lemma is_heading_iff:
  "is_heading d m \<longleftrightarrow>
     (\<exists>mid. m = DI # mid @ [HUI] \<and> mid \<noteq> [] \<and> (\<forall>c\<in>set mid. heading_class d c))"
proof
  assume h: "is_heading d m"
  then obtain rest where m: "m = DI # rest" and len: "2 \<le> length rest"
    and l: "last rest = HUI" and cls: "list_all (heading_class d) (butlast rest)"
    by (auto simp: is_heading_def split: list.splits)
  from len have ne: "rest \<noteq> []" by auto
  then have "rest = butlast rest @ [HUI]" using l by (metis append_butlast_last_id)
  moreover from len have "butlast rest \<noteq> []" by (cases rest rule: rev_cases) auto
  ultimately show "\<exists>mid. m = DI # mid @ [HUI] \<and> mid \<noteq> [] \<and> (\<forall>c\<in>set mid. heading_class d c)"
    using m cls by (auto simp: list_all_iff)
next
  assume "\<exists>mid. m = DI # mid @ [HUI] \<and> mid \<noteq> [] \<and> (\<forall>c\<in>set mid. heading_class d c)"
  then obtain mid where "m = DI # mid @ [HUI]" "mid \<noteq> []" "\<forall>c\<in>set mid. heading_class d c"
    by blast
  then show "is_heading d m"
    by (cases mid) (auto simp: is_heading_def list_all_iff)
qed

lemma match_heading_sound:
  assumes "match_heading d s = Some n"
  shows "1 \<le> n \<and> n \<le> length s \<and> is_heading d (take n s)"
proof -
  from assms obtain rest k where s: "s = DI # rest" and n: "n = k + 2"
    and bt: "heading_backtrack rest (length (takeWhile (heading_class d) rest)) = Some k"
    by (auto simp: match_heading_def split: list.splits if_splits)
  from heading_backtrack_sound [OF bt]
  have k: "1 \<le> k" "k \<le> length (takeWhile (heading_class d) rest)" "k < length rest" "rest ! k = HUI"
    by simp_all
  have t: "take n s = DI # take k rest @ [HUI]"
    using k(3,4) by (simp add: s n take_Suc_conv_app_nth)
  have "take k rest = take k (takeWhile (heading_class d) rest @ dropWhile (heading_class d) rest)"
    by simp
  also have "\<dots> = take k (takeWhile (heading_class d) rest)"
    using k(2) by (simp del: takeWhile_dropWhile_id)
  finally have "take k rest = take k (takeWhile (heading_class d) rest)" .
  then have "\<forall>c\<in>set (take k rest). heading_class d c"
    by (metis in_set_takeD set_takeWhileD)
  moreover from k(1,3) have "take k rest \<noteq> []" by auto
  ultimately have "is_heading d (take n s)"
    unfolding t is_heading_iff by blast
  moreover from k(3) have "n \<le> length s" by (simp add: s n)
  ultimately show ?thesis by (simp add: n)
qed

lemma match_heading_complete:
  assumes "is_heading d m"
  shows "\<exists>n. match_heading d (m @ v) = Some n"
proof -
  from assms obtain mid where m: "m = DI # mid @ [HUI]" and ne: "mid \<noteq> []"
    and cls: "\<forall>c\<in>set mid. heading_class d c"
    unfolding is_heading_iff by blast
  define rest where "rest = mid @ HUI # v"
  have "takeWhile (heading_class d) rest = mid @ takeWhile (heading_class d) (HUI # v)"
    using cls by (simp add: rest_def takeWhile_append2)
  then have K: "length mid \<le> length (takeWhile (heading_class d) rest)" by simp
  from ne have "1 \<le> length mid" by (cases mid) simp_all
  from heading_backtrack_complete [OF this K, of rest]
  obtain k' where "heading_backtrack rest (length (takeWhile (heading_class d) rest)) = Some k'"
    by (auto simp: rest_def)
  then show ?thesis by (simp add: match_heading_def m rest_def)
qed

lemma set_concat_pairs:
  "(i, n) \<in> set (concat (map (\<lambda>i. map (\<lambda>n. (i, n)) (f i)) xs)) \<longleftrightarrow> i \<in> set xs \<and> n \<in> set (f i)"
  by (induction xs) auto

lemma heading_spans_iff:
  "(i, n) \<in> set (heading_spans d s) \<longleftrightarrow>
     i < length s \<and> 1 \<le> n \<and> n \<le> length s - i \<and> is_heading d (take n (drop i s))"
  unfolding heading_spans_def set_concat_pairs by auto

lemma match_heading_span:
  assumes "match_heading d t = Some n" "s = u @ t"
  shows "(length u, n) \<in> set (heading_spans d s)"
proof -
  from match_heading_sound [OF assms(1)]
  have "1 \<le> n" "n \<le> length t" "is_heading d (take n t)" by simp_all
  then show ?thesis by (auto simp: heading_spans_iff assms(2))
qed

lemma heading_split_skip:
  "(\<And>i. i < length u \<Longrightarrow> match_heading d (drop i u @ t) = None) \<Longrightarrow>
   heading_split d cur (u @ t) = heading_split d (cur @ u) t"
proof (induction u arbitrary: cur)
  case Nil
  show ?case by simp
next
  case (Cons a u)
  from Cons.prems [of 0] have "match_heading d (a # u @ t) = None" by simp
  then have "heading_split d cur ((a # u) @ t) = heading_split d (cur @ [a]) (u @ t)" by simp
  moreover have "heading_split d (cur @ [a]) (u @ t) = heading_split d ((cur @ [a]) @ u) t"
  proof (rule Cons.IH)
    fix i assume "i < length u"
    with Cons.prems [of "Suc i"] show "match_heading d (drop i u @ t) = None" by simp
  qed
  ultimately show ?case by simp
qed

lemma heading_split_match:
  assumes "match_heading d t = Some n"
  shows "heading_split d cur t = cur # take n t # heading_split d [] (drop n t)"
proof (cases t)
  case Nil
  with assms show ?thesis by (simp add: match_heading_def)
next
  case (Cons c cs)
  with assms show ?thesis by simp
qed

lemma strip_heading:
  assumes "is_heading d h"
  shows "strip (h @ x) = h @ rev (dropWhile isspace (rev x))"
proof -
  from assms obtain mid where h: "h = DI # mid @ [HUI]" unfolding is_heading_iff by blast
  have a: "dropWhile isspace (h @ x) = h @ x" by (simp add: h not_isspace_DI_HUI)
  have "dropWhile isspace (rev x @ rev h) = dropWhile isspace (rev x) @ rev h"
    by (simp add: dropWhile_append h not_isspace_DI_HUI)
  then show ?thesis by (simp add: strip_def a)
qed

text \<open>
  C9. Let the heading pattern match exactly two substrings of the document, \<open>h1\<close> and
  \<open>h2\<close>, with the non-empty text \<open>body\<close> between them: the document is
  \<open>pre h1 body h2 post\<close>, and \<open>heading_spans\<close>, the list of all matching substrings, has
  these two entries only. Then \<open>split_text_into_chapters\<close> returns exactly two chapters, in
  the order of the document: \<open>h1 body\<close> and \<open>h2 post\<close>, trimmed; each starts with its
  heading. This holds for any table of decimal digits.
\<close>

theorem split_text_into_chapters_two_headings:
  assumes doc: "doc = pre @ h1 @ body @ h2 @ post"
    and body: "body \<noteq> []"
    and spans: "heading_spans d doc =
      [(length pre, length h1), (length pre + length h1 + length body, length h2)]"
  shows "split_text_into_chapters d doc = [strip (h1 @ body), strip (h2 @ post)] \<and>
         prefix h1 (strip (h1 @ body)) \<and> prefix h2 (strip (h2 @ post))"
proof -
  let ?p2 = "length pre + length h1 + length body"
  have only: "(i, n) = (length pre, length h1) \<or> (i, n) = (?p2, length h2)"
    if "(i, n) \<in> set (heading_spans d doc)" for i n
    using that unfolding spans by simp
  have "(length pre, length h1) \<in> set (heading_spans d doc)" unfolding spans by simp
  then have H1: "is_heading d h1" and l1: "1 \<le> length h1"
    by (simp_all add: heading_spans_iff doc)
  have "(?p2, length h2) \<in> set (heading_spans d doc)" unfolding spans by simp
  then have H2: "is_heading d h2" and l2: "1 \<le> length h2"
    by (simp_all add: heading_spans_iff doc)
  \<comment> \<open>no match starts inside \<open>pre\<close>\<close>
  have s1: "heading_split d [] doc = heading_split d pre (h1 @ body @ h2 @ post)"
  proof -
    have "match_heading d (drop i pre @ h1 @ body @ h2 @ post) = None" if i: "i < length pre" for i
    proof (rule ccontr)
      assume "match_heading d (drop i pre @ h1 @ body @ h2 @ post) \<noteq> None"
      then obtain n where m: "match_heading d (drop i pre @ h1 @ body @ h2 @ post) = Some n" by auto
      have "doc = take i pre @ (drop i pre @ h1 @ body @ h2 @ post)" by (simp add: doc)
      from only [OF match_heading_span [OF m this]] i show False by auto
    qed
    from heading_split_skip [of pre d "h1 @ body @ h2 @ post" "[]", OF this] show ?thesis
      by (simp add: doc)
  qed
  \<comment> \<open>the match at \<open>h1\<close> is \<open>h1\<close>\<close>
  have m1: "match_heading d (h1 @ body @ h2 @ post) = Some (length h1)"
  proof -
    from match_heading_complete [OF H1, of "body @ h2 @ post"]
    obtain n where m: "match_heading d (h1 @ body @ h2 @ post) = Some n" by auto
    from only [OF match_heading_span [OF m doc]] l1 body have "n = length h1" by auto
    with m show ?thesis by simp
  qed
  have s2: "heading_split d pre (h1 @ body @ h2 @ post) =
      pre # h1 # heading_split d [] (body @ h2 @ post)"
    using heading_split_match [OF m1, of pre] by simp
  \<comment> \<open>no match starts inside \<open>body\<close>\<close>
  have s3: "heading_split d [] (body @ h2 @ post) = heading_split d body (h2 @ post)"
  proof -
    have "match_heading d (drop i body @ h2 @ post) = None" if i: "i < length body" for i
    proof (rule ccontr)
      assume "match_heading d (drop i body @ h2 @ post) \<noteq> None"
      then obtain n where m: "match_heading d (drop i body @ h2 @ post) = Some n" by auto
      have "doc = (pre @ h1 @ take i body) @ (drop i body @ h2 @ post)" by (simp add: doc)
      from only [OF match_heading_span [OF m this]] i l1 show False by auto
    qed
    from heading_split_skip [of body d "h2 @ post" "[]", OF this] show ?thesis by simp
  qed
  have m2: "match_heading d (h2 @ post) = Some (length h2)"
  proof -
    from match_heading_complete [OF H2, of post]
    obtain n where m: "match_heading d (h2 @ post) = Some n" by auto
    have "doc = (pre @ h1 @ body) @ (h2 @ post)" by (simp add: doc)
    from only [OF match_heading_span [OF m this]] l1 body have "n = length h2" by auto
    with m show ?thesis by simp
  qed
  have s4: "heading_split d body (h2 @ post) = body # h2 # heading_split d [] post"
    using heading_split_match [OF m2, of body] by simp
  \<comment> \<open>no match starts inside \<open>post\<close>\<close>
  have s5: "heading_split d [] post = [post]"
  proof -
    have "match_heading d (drop i post @ []) = None" if i: "i < length post" for i
    proof (rule ccontr)
      assume "match_heading d (drop i post @ []) \<noteq> None"
      then obtain n where m: "match_heading d (drop i post @ []) = Some n" by auto
      have "doc = (pre @ h1 @ body @ h2 @ take i post) @ (drop i post @ [])" by (simp add: doc)
      from only [OF match_heading_span [OF m this]] i l1 l2 show False by auto
    qed
    from heading_split_skip [of post d "[]" "[]", OF this] show ?thesis by simp
  qed
  have parts: "heading_split d [] doc = [pre, h1, body, h2, post]"
    by (simp add: s1 s2 s3 s4 s5)
  from l1 l2 have hne: "h1 \<noteq> []" "h2 \<noteq> []" by auto
  have ne1: "strip (h1 @ body) \<noteq> []" using hne by (simp add: strip_heading [OF H1])
  have ne2: "strip (h2 @ post) \<noteq> []" using hne by (simp add: strip_heading [OF H2])
  have "split_text_into_chapters d doc = [strip (h1 @ body), strip (h2 @ post)]"
    by (simp add: split_text_into_chapters_def parts ne1 ne2)
  moreover have "prefix h1 (strip (h1 @ body))" by (simp add: strip_heading [OF H1])
  moreover have "prefix h2 (strip (h2 @ post))" by (simp add: strip_heading [OF H2])
  ultimately show ?thesis by simp
qed

theorem split_text_into_chapters_two_headings_witness:
  "[31532, 19968, 22238, 32, 30002, 12290, 31532, 20108, 22238, 32, 20057, 12290] =
     [] @ [31532, 19968, 22238] @ [32, 30002, 12290] @ [31532, 20108, 22238] @ [32, 20057, 12290 :: nat] \<and>
   [32, 30002, 12290] \<noteq> ([] :: ustring) \<and>
   heading_spans (\<lambda>c. 48 \<le> c \<and> c \<le> 57)
     [31532, 19968, 22238, 32, 30002, 12290, 31532, 20108, 22238, 32, 20057, 12290] = [(0, 3), (6, 3)] \<and>
   split_text_into_chapters (\<lambda>c. 48 \<le> c \<and> c \<le> 57)
     [31532, 19968, 22238, 32, 30002, 12290, 31532, 20108, 22238, 32, 20057, 12290] =
     [[31532, 19968, 22238, 32, 30002, 12290], [31532, 20108, 22238, 32, 20057, 12290]] \<and>
   prefix [31532, 19968, 22238] [31532, 19968, 22238, 32, 30002, 12290 :: nat] \<and>
   prefix [31532, 20108, 22238] [31532, 20108, 22238, 32, 20057, 12290 :: nat]"
proof -
  let ?d = "\<lambda>c::nat. 48 \<le> c \<and> c \<le> 57"
  let ?doc = "[31532, 19968, 22238, 32, 30002, 12290, 31532, 20108, 22238, 32, 20057, 12290 :: nat]"
  have doc: "?doc = [] @ [31532, 19968, 22238] @ [32, 30002, 12290] @ [31532, 20108, 22238] @ [32, 20057, 12290]"
    by simp
  have body: "[32, 30002, 12290] \<noteq> ([] :: ustring)" by simp
  have spans: "heading_spans ?d ?doc =
      [(length ([] :: ustring), length [31532, 19968, 22238 :: nat]),
       (length ([] :: ustring) + length [31532, 19968, 22238 :: nat] + length [32, 30002, 12290 :: nat],
        length [31532, 20108, 22238 :: nat])]"
    by (simp add: heading_spans_def is_heading_def heading_class_def DI_def HUI_def upt_rec [of _ "Suc _"])
  have st: "strip [31532, 19968, 22238, 32, 30002, 12290] = [31532, 19968, 22238, 32, 30002, 12290]"
    "strip [31532, 20108, 22238, 32, 20057, 12290] = [31532, 20108, 22238, 32, 20057, 12290]"
    by (simp_all add: strip_def isspace_def)
  from split_text_into_chapters_two_headings [OF doc body spans] spans st
  show ?thesis by simp
qed

end
